theory Spec2Isabelle
  imports Main "HOL-Library.Word" "HOL-Library.Monad_Syntax" "HOL-Library.Multiset"
begin

unbundle bit_operations_syntax

section \<open>FlatHashTable: an open-addressed hash table with backward-shift deletion\<close>

text \<open>
  A shallow embedding of \<^verbatim>\<open>tdutils/td/utils/FlatHashMapLinear.h\<close>.

  Conventions of the embedding.
  \<^item> A \<^verbatim>\<open>uint32\<close> is a natural number below \<open>2 ^ 32\<close>; every arithmetic operation of the
    source on such a value is written with its wrap-around (\<open>u32_add\<close>, \<open>u32_sub\<close>,
    \<open>u32_mul\<close>). The avalanche mixer works on \<open>32 word\<close>.
  \<^item> A function that may not return to its caller has an \<open>option\<close> result: \<open>None\<close> says
    that the call does not return normally, because a \<^verbatim>\<open>CHECK\<close> aborts the process, because
    a loop never exits, or because the source has no defined behaviour there.
    \<^verbatim>\<open>DCHECK\<close>s are debug assertions and are not branches of the model.
  \<^item> The template parameters are a record \<open>params\<close>: the hasher \<open>HashT\<close> (its \<^verbatim>\<open>size_t\<close>
    result as a natural number) and \<^verbatim>\<open>sizeof(NodeT)\<close>. The equality \<open>EqT\<close> is \<^verbatim>\<open>std::equal_to\<close>,
    the equality of HOL. The default key \<^verbatim>\<open>KeyT()\<close> is \<open>0\<close>.
  \<^item> The pointer \<^verbatim>\<open>nodes_\<close> of a table is an \<open>option\<close>: \<open>None\<close> is \<^verbatim>\<open>nullptr\<close>, and
    \<open>Some inner\<close> is the allocated header with its bucket array. A pointer into the bucket
    array is the index of the bucket. Field names drop the trailing underscore of the
    source.
\<close>

subsection \<open>Machine arithmetic\<close>

definition u32_add :: "nat \<Rightarrow> nat \<Rightarrow> nat" where
  "u32_add a b = (a + b) mod 2 ^ 32"

definition u32_sub :: "nat \<Rightarrow> nat \<Rightarrow> nat" where
  "u32_sub a b = (a + 2 ^ 32 - b mod 2 ^ 32) mod 2 ^ 32"

definition u32_mul :: "nat \<Rightarrow> nat \<Rightarrow> nat" where
  "u32_mul a b = (a * b) mod 2 ^ 32"

definition CHECK :: "bool \<Rightarrow> unit option" where
  "CHECK c = (if c then Some () else None)"

subsection \<open>Keys, hashing and nodes\<close>

record 'k params =
  HashT :: "'k \<Rightarrow> nat"
  sizeof_NodeT :: nat

definition is_key_empty :: "'k::zero \<Rightarrow> bool" where
  "is_key_empty key = (key = 0)"

definition randomize_hash :: "nat \<Rightarrow> 32 word" where
  "randomize_hash h =
     (let result = (word_of_nat h :: 32 word);
          result = result XOR drop_bit 16 result;
          result = result * 0x85ebca6b;
          result = result XOR drop_bit 13 result;
          result = result * 0xc2b2ae35;
          result = result XOR drop_bit 16 result
      in result)"

text \<open>
  \<^verbatim>\<open>MapNode\<close>: the key \<open>first\<close> and the union holding the value \<open>second\<close>; \<open>None\<close> is the
  storage in which no value is constructed.
\<close>

record ('k, 'v) MapNode =
  first :: 'k
  second :: "'v option"

definition MapNode_default :: "('k::zero, 'v) MapNode" where
  "MapNode_default = \<lparr>first = 0, second = None\<rparr>"

definition node_empty :: "('k::zero, 'v) MapNode \<Rightarrow> bool" where
  "node_empty node = is_key_empty (first node)"

definition node_clear :: "('k::zero, 'v) MapNode \<Rightarrow> ('k, 'v) MapNode" where
  "node_clear node = node\<lparr>first := 0, second := None\<rparr>"

definition node_emplace :: "('k::zero, 'v) MapNode \<Rightarrow> 'k \<Rightarrow> 'v \<Rightarrow> ('k, 'v) MapNode" where
  "node_emplace node key args = node\<lparr>first := key, second := Some args\<rparr>"

text \<open>
  The move assignment \<^verbatim>\<open>operator=(MapNode &&other)\<close>: the pair of the assigned node and of
  what is left in \<open>other\<close>.
\<close>

definition node_move :: "('k::zero, 'v) MapNode \<Rightarrow> ('k, 'v) MapNode \<times> ('k, 'v) MapNode" where
  "node_move other =
     (\<lparr>first = first other, second = second other\<rparr>, \<lparr>first = 0, second = None\<rparr>)"

subsection \<open>The table\<close>

record ('k, 'v) FlatHashTableInner =
  used_node_count :: nat
  bucket_count_mask :: nat
  nodes :: "('k, 'v) MapNode list"

type_synonym ('k, 'v) FlatHashTable = "('k, 'v) FlatHashTableInner option"

definition OFFSET :: nat where
  "OFFSET = 2 * 4"

text \<open>
  \<^verbatim>\<open>allocate_nodes\<close> leaves \<^verbatim>\<open>used_node_count_\<close> unset; both callers store it in their next
  statement. The model starts it at \<open>0\<close>.
\<close>

text \<open>The bound of the \<^verbatim>\<open>CHECK\<close> in \<^verbatim>\<open>allocate_nodes\<close>.\<close>

definition max_bucket_count :: "'k params \<Rightarrow> nat" where
  "max_bucket_count P = min (2 ^ 29) ((0x7FFFFFFF - OFFSET) div sizeof_NodeT P)"

definition allocate_nodes :: "'k params \<Rightarrow> nat \<Rightarrow> ('k::zero, 'v) FlatHashTableInner option" where
  "allocate_nodes P sz = do {
     CHECK (sz \<le> max_bucket_count P);
     Some \<lparr>used_node_count = 0, bucket_count_mask = u32_sub sz 1,
           nodes = replicate sz MapNode_default\<rparr>
   }"

definition bucket_count :: "('k, 'v) FlatHashTable \<Rightarrow> nat" where
  "bucket_count t = (case t of None \<Rightarrow> 0 | Some inner \<Rightarrow> u32_add (bucket_count_mask inner) 1)"

definition size_table :: "('k, 'v) FlatHashTable \<Rightarrow> nat" where
  "size_table t = (case t of None \<Rightarrow> 0 | Some inner \<Rightarrow> used_node_count inner)"

definition empty_table :: "('k, 'v) FlatHashTable \<Rightarrow> bool" where
  "empty_table t = (case t of None \<Rightarrow> True | Some inner \<Rightarrow> used_node_count inner = 0)"

definition calc_bucket :: "'k params \<Rightarrow> ('k, 'v) FlatHashTableInner \<Rightarrow> 'k \<Rightarrow> nat" where
  "calc_bucket P inner key = unat (randomize_hash (HashT P key)) AND bucket_count_mask inner"

definition next_bucket :: "('k, 'v) FlatHashTableInner \<Rightarrow> nat \<Rightarrow> nat" where
  "next_bucket inner bucket = u32_add bucket 1 AND bucket_count_mask inner"

subsection \<open>Iterators\<close>

record Iterator =
  it_ptr :: "nat option"
  begin_ptr :: nat
  start_ptr :: "nat option"
  end_ptr :: nat

definition Iterator_new :: "nat option \<Rightarrow> ('k, 'v) FlatHashTable \<Rightarrow> Iterator" where
  "Iterator_new p t = \<lparr>it_ptr = p, begin_ptr = 0, start_ptr = p, end_ptr = bucket_count t\<rparr>"

definition end_iterator :: "('k, 'v) FlatHashTable \<Rightarrow> Iterator" where
  "end_iterator t = Iterator_new None t"

text \<open>\<^verbatim>\<open>operator==\<close> of iterators compares \<^verbatim>\<open>it_\<close> alone.\<close>

definition Iterator_eq :: "Iterator \<Rightarrow> Iterator \<Rightarrow> bool" where
  "Iterator_eq a b = (it_ptr a = it_ptr b)"

text \<open>
  \<^verbatim>\<open>operator++\<close>: the do-while loop, started at the bucket \<open>p\<close> the iterator points to. The
  iterator reads the bucket array it points into.
\<close>

partial_function (option) Iterator_inc_loop ::
  "('k::zero, 'v) MapNode list \<Rightarrow> Iterator \<Rightarrow> nat \<Rightarrow> Iterator option" where
  "Iterator_inc_loop ns iter p =
     (let p = p + 1;
          p = (if p = end_ptr iter then begin_ptr iter else p)
      in if Some p = start_ptr iter then Some (iter\<lparr>it_ptr := None\<rparr>)
         else if node_empty (ns ! p) then Iterator_inc_loop ns iter p
         else Some (iter\<lparr>it_ptr := Some p\<rparr>))"

definition Iterator_inc :: "('k::zero, 'v) MapNode list \<Rightarrow> Iterator \<Rightarrow> Iterator option" where
  "Iterator_inc ns iter =
     (case it_ptr iter of None \<Rightarrow> None | Some p \<Rightarrow> Iterator_inc_loop ns iter p)"

subsection \<open>Lookup\<close>

partial_function (option) find_loop ::
  "('k::zero, 'v) FlatHashTableInner \<Rightarrow> 'k \<Rightarrow> nat \<Rightarrow> Iterator option" where
  "find_loop inner key bucket =
     (let node = nodes inner ! bucket in
      if first node = key then Some (Iterator_new (Some bucket) (Some inner))
      else if node_empty node then Some (end_iterator (Some inner))
      else find_loop inner key (next_bucket inner bucket))"

definition find :: "'k params \<Rightarrow> ('k::zero, 'v) FlatHashTable \<Rightarrow> 'k \<Rightarrow> Iterator option" where
  "find P t key =
     (case t of
        None \<Rightarrow> Some (end_iterator t)
      | Some inner \<Rightarrow>
          if is_key_empty key then Some (end_iterator t)
          else find_loop inner key (calc_bucket P inner key))"

text \<open>What an iterator of the table points to: \<^verbatim>\<open>*it\<close>, for an iterator that is not \<^verbatim>\<open>end()\<close>.\<close>

definition deref :: "('k, 'v) FlatHashTable \<Rightarrow> Iterator \<Rightarrow> ('k, 'v) MapNode option" where
  "deref t iter =
     (case (t, it_ptr iter) of (Some inner, Some p) \<Rightarrow> Some (nodes inner ! p) | _ \<Rightarrow> None)"

subsection \<open>Sizing and rehashing\<close>

text \<open>
  Modelled from the spec: \<^verbatim>\<open>count_leading_zeroes32\<close> is declared in \<^verbatim>\<open>td/utils/bits.h\<close>,
  which is not part of the sources at hand. It is the number of leading zero bits of a
  32-bit value, \<open>32\<close> for \<open>0\<close>.
\<close>

fun bit_width :: "nat \<Rightarrow> nat" where
  "bit_width n = (if n = 0 then 0 else Suc (bit_width (n div 2)))"

declare bit_width.simps [simp del]

definition count_leading_zeroes32 :: "nat \<Rightarrow> nat" where
  "count_leading_zeroes32 x = 32 - bit_width (x mod 2 ^ 32)"

text \<open>
  \<^verbatim>\<open>normalize\<close>. A shift of a 32-bit value by 32 has no defined result in C++: the model has
  none there.
\<close>

definition normalize :: "nat \<Rightarrow> nat option" where
  "normalize sz =
     (let shift = 32 - count_leading_zeroes32 sz
      in if shift < 32 then Some (max (push_bit shift 1 mod 2 ^ 32) 8) else None)"

partial_function (option) probe_empty ::
  "('k::zero, 'v) FlatHashTableInner \<Rightarrow> nat \<Rightarrow> nat option" where
  "probe_empty inner bucket =
     (if \<not> node_empty (nodes inner ! bucket) then probe_empty inner (next_bucket inner bucket)
      else Some bucket)"

text \<open>
  The \<^verbatim>\<open>for\<close> loop of \<^verbatim>\<open>resize\<close> over the old buckets \<open>0 .. old_bucket_count - 1\<close>, as a
  recursion over the list of these buckets.
\<close>

fun resize_loop ::
  "'k params \<Rightarrow> ('k::zero, 'v) MapNode list \<Rightarrow> ('k, 'v) FlatHashTableInner
     \<Rightarrow> ('k, 'v) FlatHashTableInner option" where
  "resize_loop P [] inner = Some inner"
| "resize_loop P (old_node # old_nodes) inner =
     (if node_empty old_node then resize_loop P old_nodes inner
      else do {
        bucket \<leftarrow> probe_empty inner (calc_bucket P inner (first old_node));
        resize_loop P old_nodes
          (inner\<lparr>nodes := (nodes inner)[bucket := fst (node_move old_node)]\<rparr>)
      })"

definition resize ::
  "'k params \<Rightarrow> ('k::zero, 'v) FlatHashTable \<Rightarrow> nat \<Rightarrow> ('k, 'v) FlatHashTable option" where
  "resize P t new_size =
     (case t of
        None \<Rightarrow> do {
          inner \<leftarrow> allocate_nodes P new_size;
          Some (Some (inner\<lparr>used_node_count := 0\<rparr>))
        }
      | Some old \<Rightarrow> do {
          let old_nodes = nodes old;
          let old_size = used_node_count old;
          let old_bucket_count = u32_add (bucket_count_mask old) 1;
          inner \<leftarrow> allocate_nodes P new_size;
          let inner = inner\<lparr>used_node_count := old_size\<rparr>;
          inner \<leftarrow> resize_loop P (take old_bucket_count old_nodes) inner;
          Some (Some inner)
        })"

definition try_grow ::
  "'k params \<Rightarrow> ('k::zero, 'v) FlatHashTable \<Rightarrow> ('k, 'v) FlatHashTable option" where
  "try_grow P t =
     (case t of
        None \<Rightarrow> resize P t 8
      | Some inner \<Rightarrow>
          if u32_mul (used_node_count inner) 5 > u32_mul (bucket_count_mask inner) 3
          then resize P t (u32_add (u32_mul 2 (bucket_count_mask inner)) 2)
          else Some t)"

definition try_shrink ::
  "'k params \<Rightarrow> ('k::zero, 'v) FlatHashTable \<Rightarrow> ('k, 'v) FlatHashTable option" where
  "try_shrink P t =
     (case t of
        None \<Rightarrow> None
      | Some inner \<Rightarrow>
          if u32_mul (used_node_count inner) 10 < bucket_count_mask inner
             \<and> bucket_count_mask inner > 7
          then do {
            new_size \<leftarrow>
              normalize (u32_add (u32_mul (u32_add (used_node_count inner) 1) 5 div 3) 1);
            resize P t new_size
          }
          else Some t)"

text \<open>\<^verbatim>\<open>reserve\<close>; the \<^verbatim>\<open>size_t\<close> argument is cast to \<^verbatim>\<open>uint32\<close> for the arithmetic.\<close>

definition reserve ::
  "'k params \<Rightarrow> ('k::zero, 'v) FlatHashTable \<Rightarrow> nat \<Rightarrow> ('k, 'v) FlatHashTable option" where
  "reserve P t sz =
     (if sz = 0 then Some t
      else do {
        CHECK (sz \<le> 2 ^ 29);
        want_size \<leftarrow> normalize (u32_add (u32_mul (sz mod 2 ^ 32) 5 div 3) 1);
        if want_size > bucket_count t then resize P t want_size else Some t
      })"

subsection \<open>Insertion\<close>

partial_function (option) emplace_loop ::
  "('k::zero, 'v) FlatHashTableInner \<Rightarrow> 'k \<Rightarrow> 'v \<Rightarrow> nat
     \<Rightarrow> (('k, 'v) FlatHashTable \<times> Iterator \<times> bool) option" where
  "emplace_loop inner key args bucket =
     (let node = nodes inner ! bucket in
      if first node = key
      then Some (Some inner, Iterator_new (Some bucket) (Some inner), False)
      else if node_empty node
      then (let inner = inner\<lparr>nodes := (nodes inner)[bucket := node_emplace node key args]\<rparr>;
                inner = inner\<lparr>used_node_count := u32_add (used_node_count inner) 1\<rparr>
            in Some (Some inner, Iterator_new (Some bucket) (Some inner), True))
      else emplace_loop inner key args (next_bucket inner bucket))"

definition emplace ::
  "'k params \<Rightarrow> ('k::zero, 'v) FlatHashTable \<Rightarrow> 'k \<Rightarrow> 'v
     \<Rightarrow> (('k, 'v) FlatHashTable \<times> Iterator \<times> bool) option" where
  "emplace P t key args = do {
     t \<leftarrow> try_grow P t;
     CHECK (\<not> is_key_empty key);
     (case t of
        None \<Rightarrow> None
      | Some inner \<Rightarrow> emplace_loop inner key args (calc_bucket P inner key))
   }"

subsection \<open>Erasure\<close>

partial_function (option) erase_node_loop ::
  "'k params \<Rightarrow> ('k::zero, 'v) FlatHashTableInner \<Rightarrow> nat \<Rightarrow> nat \<Rightarrow> nat
     \<Rightarrow> ('k, 'v) FlatHashTableInner option" where
  "erase_node_loop P inner empty_i empty_bucket test_i =
     (let test_bucket = test_i;
          test_bucket = (if test_bucket \<ge> bucket_count (Some inner)
                         then u32_sub test_bucket (bucket_count (Some inner))
                         else test_bucket)
      in if node_empty (nodes inner ! test_bucket) then Some inner
         else
           (let want_i = calc_bucket P inner (first (nodes inner ! test_bucket));
                want_i = (if want_i < empty_i then u32_add want_i (bucket_count (Some inner))
                          else want_i)
            in if want_i \<le> empty_i \<or> want_i > test_i
               then
                 (let (moved, left) = node_move (nodes inner ! test_bucket);
                      inner = inner\<lparr>nodes := (nodes inner)[empty_bucket := moved]\<rparr>;
                      inner = inner\<lparr>nodes := (nodes inner)[test_bucket := left]\<rparr>
                  in erase_node_loop P inner test_i test_bucket (u32_add test_i 1))
               else erase_node_loop P inner empty_i empty_bucket (u32_add test_i 1)))"

definition erase_node ::
  "'k params \<Rightarrow> ('k::zero, 'v) FlatHashTableInner \<Rightarrow> nat
     \<Rightarrow> ('k, 'v) FlatHashTableInner option" where
  "erase_node P inner it =
     (let empty_i = it;
          empty_bucket = empty_i;
          inner = inner\<lparr>nodes := (nodes inner)[empty_bucket := node_clear (nodes inner ! empty_bucket)]\<rparr>;
          inner = inner\<lparr>used_node_count := u32_sub (used_node_count inner) 1\<rparr>
      in erase_node_loop P inner empty_i empty_bucket (u32_add empty_i 1))"

definition erase_it ::
  "'k params \<Rightarrow> ('k::zero, 'v) FlatHashTable \<Rightarrow> Iterator \<Rightarrow> ('k, 'v) FlatHashTable option" where
  "erase_it P t iter =
     (case (t, it_ptr iter) of
        (Some inner, Some p) \<Rightarrow> do {
          inner \<leftarrow> erase_node P inner p;
          try_shrink P (Some inner)
        }
      | _ \<Rightarrow> None)"

definition erase ::
  "'k params \<Rightarrow> ('k::zero, 'v) FlatHashTable \<Rightarrow> 'k \<Rightarrow> (('k, 'v) FlatHashTable \<times> nat) option" where
  "erase P t key = do {
     iter \<leftarrow> find P t key;
     if Iterator_eq iter (end_iterator t) then Some (t, 0)
     else do {
       t \<leftarrow> erase_it P t iter;
       Some (t, 1)
     }
   }"

definition clear :: "('k, 'v) FlatHashTable \<Rightarrow> ('k, 'v) FlatHashTable" where
  "clear t = (if t \<noteq> None then None else t)"

subsection \<open>Move construction and move assignment\<close>

text \<open>Both return the pair of the destination and of the moved-from table \<open>other\<close>.\<close>

definition move_construct ::
  "('k, 'v) FlatHashTable \<Rightarrow> ('k, 'v) FlatHashTable \<times> ('k, 'v) FlatHashTable" where
  "move_construct other = (let this = other; other = None in (this, other))"

definition move_assign ::
  "('k, 'v) FlatHashTable \<Rightarrow> ('k, 'v) FlatHashTable
     \<Rightarrow> ('k, 'v) FlatHashTable \<times> ('k, 'v) FlatHashTable" where
  "move_assign this other =
     (let this = clear this; this = other; other = None in (this, other))"

subsection \<open>Iteration\<close>

text \<open>\<^verbatim>\<open>begin()\<close>; \<open>r\<close> is the value of \<^verbatim>\<open>Random::fast_uint32()\<close>.\<close>

partial_function (option) begin_loop ::
  "('k::zero, 'v) FlatHashTableInner \<Rightarrow> nat \<Rightarrow> nat option" where
  "begin_loop inner bucket =
     (if node_empty (nodes inner ! bucket) then begin_loop inner (next_bucket inner bucket)
      else Some bucket)"

definition begin_iterator ::
  "nat \<Rightarrow> ('k::zero, 'v) FlatHashTable \<Rightarrow> Iterator option" where
  "begin_iterator r t =
     (if empty_table t then Some (end_iterator t)
      else case t of
        None \<Rightarrow> None
      | Some inner \<Rightarrow> do {
          bucket \<leftarrow> begin_loop inner (r AND bucket_count_mask inner);
          Some (Iterator_new (Some bucket) t)
        })"

text \<open>
  The client loop \<^verbatim>\<open>for (auto it = begin(); it != end(); ++it) out.push_back(*it);\<close>, from
  the iterator \<open>iter\<close> on.
\<close>

partial_function (option) collect_loop ::
  "('k::zero, 'v) FlatHashTable \<Rightarrow> Iterator \<Rightarrow> ('k, 'v) MapNode list
     \<Rightarrow> ('k, 'v) MapNode list option" where
  "collect_loop t iter out =
     (if \<not> Iterator_eq iter (end_iterator t)
      then (case (t, it_ptr iter) of
              (Some inner, Some p) \<Rightarrow> do {
                 let out = out @ [nodes inner ! p];
                 iter \<leftarrow> Iterator_inc (nodes inner) iter;
                 collect_loop t iter out
               }
            | _ \<Rightarrow> None)
      else Some out)"

definition collect ::
  "nat \<Rightarrow> ('k::zero, 'v) FlatHashTable \<Rightarrow> ('k, 'v) MapNode list option" where
  "collect r t = do {
     iter \<leftarrow> begin_iterator r t;
     collect_loop t iter []
   }"

subsection \<open>Bulk predicate erase\<close>

text \<open>
  \<^verbatim>\<open>remove_if\<close>: the walk forward from \<^verbatim>\<open>begin()\<close> to the first empty bucket or the end of
  the array, the walk back from the end of the array to an empty bucket (a pointer that
  leaves the array has no defined behaviour), and the loop that erases the matching nodes
  of the buckets \<open>it .. end_p - 1\<close>.
\<close>

partial_function (option) remove_if_skip ::
  "('k::zero, 'v) MapNode list \<Rightarrow> nat \<Rightarrow> nat \<Rightarrow> nat option" where
  "remove_if_skip ns it end_p =
     (if it \<noteq> end_p \<and> \<not> node_empty (ns ! it) then remove_if_skip ns (it + 1) end_p
      else Some it)"

partial_function (option) remove_if_back ::
  "('k::zero, 'v) MapNode list \<Rightarrow> nat \<Rightarrow> nat option" where
  "remove_if_back ns it =
     (if it = 0 then None
      else (let it = it - 1
            in if \<not> node_empty (ns ! it) then remove_if_back ns it else Some it))"

partial_function (option) remove_if_loop ::
  "'k params \<Rightarrow> (('k::zero, 'v) MapNode \<Rightarrow> bool) \<Rightarrow> ('k, 'v) FlatHashTableInner
     \<Rightarrow> nat \<Rightarrow> nat \<Rightarrow> ('k, 'v) FlatHashTableInner option" where
  "remove_if_loop P f inner it end_p =
     (if it \<noteq> end_p
      then (if \<not> node_empty (nodes inner ! it) \<and> f (nodes inner ! it)
            then do {
              inner \<leftarrow> erase_node P inner it;
              remove_if_loop P f inner it end_p
            }
            else remove_if_loop P f inner (it + 1) end_p)
      else Some inner)"

definition remove_if ::
  "'k params \<Rightarrow> nat \<Rightarrow> (('k::zero, 'v) MapNode \<Rightarrow> bool) \<Rightarrow> ('k, 'v) FlatHashTable
     \<Rightarrow> ('k, 'v) FlatHashTable option" where
  "remove_if P r f t =
     (if empty_table t then Some t
      else case t of
        None \<Rightarrow> None
      | Some inner \<Rightarrow> do {
          b \<leftarrow> begin_iterator r t;
          it \<leftarrow> it_ptr b;
          let end_p = bucket_count t;
          it \<leftarrow> remove_if_skip (nodes inner) it end_p;
          it \<leftarrow> (if it = end_p then remove_if_back (nodes inner) it else Some it);
          let first_empty = it;
          inner \<leftarrow> remove_if_loop P f inner it end_p;
          inner \<leftarrow> remove_if_loop P f inner 0 first_empty;
          try_shrink P (Some inner)
        })"

subsection \<open>Client code\<close>

text \<open>
  What a lookup yields: \<open>Some (Some node)\<close> is the entry \<^verbatim>\<open>*find(key)\<close>, \<open>Some None\<close> is
  \<^verbatim>\<open>find(key) == end()\<close>.
\<close>

definition lookup ::
  "'k params \<Rightarrow> ('k::zero, 'v) FlatHashTable \<Rightarrow> 'k \<Rightarrow> ('k, 'v) MapNode option option" where
  "lookup P t key = map_option (deref t) (find P t key)"

text \<open>A sequence of \<^verbatim>\<open>emplace\<close> calls, and a sequence of \<^verbatim>\<open>emplace\<close> and \<^verbatim>\<open>erase\<close> calls.\<close>

fun emplace_all ::
  "'k params \<Rightarrow> ('k::zero, 'v) FlatHashTable \<Rightarrow> ('k \<times> 'v) list
     \<Rightarrow> ('k, 'v) FlatHashTable option" where
  "emplace_all P t [] = Some t"
| "emplace_all P t ((key, args) # kvs) = do {
     (t, _, _) \<leftarrow> emplace P t key args;
     emplace_all P t kvs
   }"

datatype ('k, 'v) operation = Insert 'k 'v | Erase 'k

fun run_ops ::
  "'k params \<Rightarrow> ('k::zero, 'v) FlatHashTable \<Rightarrow> ('k, 'v) operation list
     \<Rightarrow> ('k, 'v) FlatHashTable option" where
  "run_ops P t [] = Some t"
| "run_ops P t (Insert key args # ops) = do {
     (t, _, _) \<leftarrow> emplace P t key args;
     run_ops P t ops
   }"
| "run_ops P t (Erase key # ops) = do {
     (t, _) \<leftarrow> erase P t key;
     run_ops P t ops
   }"

declare remove_if_skip.simps [code]
declare remove_if_back.simps [code]
declare remove_if_loop.simps [code]
declare Iterator_inc_loop.simps [code]
declare find_loop.simps [code]
declare probe_empty.simps [code]
declare emplace_loop.simps [code]
declare erase_node_loop.simps [code]
declare begin_loop.simps [code]
declare collect_loop.simps [code]

section \<open>Invariants of a table\<close>

text \<open>The live entries of a bucket array: the occupied nodes, as a multiset.\<close>

definition entries :: "('k::zero, 'v) MapNode list \<Rightarrow> ('k, 'v) MapNode multiset" where
  "entries ns = filter_mset (\<lambda>node. \<not> node_empty node) (mset ns)"

text \<open>
  The cyclic distance from bucket \<open>a\<close> forward to bucket \<open>b\<close> among \<open>n\<close> buckets, and the
  cyclic range \<open>[h, b)\<close>: the buckets a probe that starts at \<open>h\<close> visits before it reaches \<open>b\<close>.
\<close>

definition cdist :: "nat \<Rightarrow> nat \<Rightarrow> nat \<Rightarrow> nat" where
  "cdist n a b = (if a \<le> b then b - a else b + n - a)"

definition cyclic_range :: "nat \<Rightarrow> nat \<Rightarrow> nat \<Rightarrow> nat set" where
  "cyclic_range n h b = (\<lambda>i. (h + i) mod n) ` {..<cdist n h b}"

text \<open>
  Probe contiguity: for every occupied bucket \<open>b\<close> holding key \<open>k\<close> with home bucket
  \<open>h = hash k & bucket_mask\<close>, every bucket in the cyclic range \<open>[h, b)\<close> is occupied.
\<close>

definition probe_contiguous :: "'k params \<Rightarrow> ('k::zero, 'v) FlatHashTableInner \<Rightarrow> bool" where
  "probe_contiguous P inner =
     (\<forall>b < length (nodes inner). \<not> node_empty (nodes inner ! b) \<longrightarrow>
        (\<forall>x \<in> cyclic_range (length (nodes inner))
                 (calc_bucket P inner (first (nodes inner ! b))) b.
           \<not> node_empty (nodes inner ! x)))"

definition table_probe_contiguous :: "'k params \<Rightarrow> ('k::zero, 'v) FlatHashTable \<Rightarrow> bool" where
  "table_probe_contiguous P t =
     (case t of None \<Rightarrow> True | Some inner \<Rightarrow> probe_contiguous P inner)"

text \<open>
  The same property for a home function \<open>h\<close> and by distances, and its weakening during
  an erasure, when the bucket \<open>e\<close> has just been emptied.
\<close>

definition contiguous_from :: "('k \<Rightarrow> nat) \<Rightarrow> ('k::zero, 'v) MapNode list \<Rightarrow> bool" where
  "contiguous_from h ns =
     (\<forall>b < length ns. \<not> node_empty (ns ! b) \<longrightarrow>
        (\<forall>x < length ns.
           cdist (length ns) (h (first (ns ! b))) x < cdist (length ns) (h (first (ns ! b))) b
           \<longrightarrow> \<not> node_empty (ns ! x)))"

definition contiguous_but :: "nat \<Rightarrow> ('k \<Rightarrow> nat) \<Rightarrow> ('k::zero, 'v) MapNode list \<Rightarrow> bool" where
  "contiguous_but e h ns =
     (\<forall>b < length ns. \<not> node_empty (ns ! b) \<longrightarrow>
        (\<forall>x < length ns.
           cdist (length ns) (h (first (ns ! b))) x < cdist (length ns) (h (first (ns ! b))) b
           \<longrightarrow> \<not> node_empty (ns ! x) \<or> x = e))"

text \<open>
  The layout of an allocated table: \<open>2 ^ j\<close> buckets with \<open>3 \<le> j\<close>, within the bound that
  \<^verbatim>\<open>allocate_nodes\<close> checks, and the mask one less.
\<close>

definition layout_ok :: "'k params \<Rightarrow> ('k, 'v) FlatHashTableInner \<Rightarrow> bool" where
  "layout_ok P inner =
     (\<exists>j. 3 \<le> j \<and> length (nodes inner) = 2 ^ j \<and> bucket_count_mask inner = 2 ^ j - 1
          \<and> 2 ^ j \<le> max_bucket_count P)"

definition keys_distinct :: "('k::zero, 'v) MapNode list \<Rightarrow> bool" where
  "keys_distinct ns = distinct (map first (filter (\<lambda>node. \<not> node_empty node) ns))"

text \<open>
  The invariant of an allocated table between two operations. The load bound is the one
  that holds after an insertion: the growth check of \<^verbatim>\<open>emplace\<close> runs before the node is
  added.
\<close>

definition invariant :: "'k params \<Rightarrow> ('k::zero, 'v) FlatHashTableInner \<Rightarrow> bool" where
  "invariant P inner =
     (layout_ok P inner
      \<and> used_node_count inner = size (entries (nodes inner))
      \<and> used_node_count inner * 5 \<le> bucket_count_mask inner * 3 + 5
      \<and> probe_contiguous P inner
      \<and> keys_distinct (nodes inner))"

definition wf_table :: "'k params \<Rightarrow> ('k::zero, 'v) FlatHashTable \<Rightarrow> bool" where
  "wf_table P t = (case t of None \<Rightarrow> True | Some inner \<Rightarrow> invariant P inner)"

text \<open>The live entries of a table, and the keys that are present in it.\<close>

definition table_entries :: "('k::zero, 'v) FlatHashTable \<Rightarrow> ('k, 'v) MapNode multiset" where
  "table_entries t = (case t of None \<Rightarrow> {#} | Some inner \<Rightarrow> entries (nodes inner))"

definition table_keys :: "('k::zero, 'v) FlatHashTable \<Rightarrow> 'k set" where
  "table_keys t = first ` set_mset (table_entries t)"

text \<open>
  Whether the next \<^verbatim>\<open>try_grow\<close> passes the \<^verbatim>\<open>CHECK\<close> of \<^verbatim>\<open>allocate_nodes\<close>: the size it
  asks for, if it asks for one, is within the bound.
\<close>

definition grow_ok :: "'k params \<Rightarrow> ('k, 'v) FlatHashTable \<Rightarrow> bool" where
  "grow_ok P t =
     (case t of
        None \<Rightarrow> 8 \<le> max_bucket_count P
      | Some inner \<Rightarrow>
          used_node_count inner * 5 > bucket_count_mask inner * 3
          \<longrightarrow> 2 * bucket_count_mask inner + 2 \<le> max_bucket_count P)"

text \<open>
  \<open>r\<close> is the smallest power of two that is strictly greater than \<open>x\<close>, clamped to a
  minimum of 8.
\<close>

definition least_pow2_above :: "nat \<Rightarrow> nat \<Rightarrow> bool" where
  "least_pow2_above x r =
     ((\<exists>j. r = 2 ^ j) \<and> x < r \<and> 8 \<le> r \<and> (\<forall>i. x < 2 ^ i \<and> (8::nat) \<le> 2 ^ i \<longrightarrow> r \<le> 2 ^ i))"

text \<open>The load bound of 0.6, and the bound that allows for the one entry just inserted.\<close>

definition load_le :: "('k, 'v) FlatHashTable \<Rightarrow> bool" where
  "load_le t =
     (case t of None \<Rightarrow> True
      | Some inner \<Rightarrow> used_node_count inner * 5 \<le> bucket_count_mask inner * 3)"

definition load_le_but_one :: "('k, 'v) FlatHashTable \<Rightarrow> bool" where
  "load_le_but_one t =
     (case t of None \<Rightarrow> True
      | Some inner \<Rightarrow> (used_node_count inner - 1) * 5 \<le> bucket_count_mask inner * 3)"

text \<open>
  The keys of a sequence of operations, the number of its insertions, and whether the
  most recent operation on a key is an insertion.
\<close>

fun op_key :: "('k, 'v) operation \<Rightarrow> 'k" where
  "op_key (Insert k v) = k"
| "op_key (Erase k) = k"

fun is_Insert :: "('k, 'v) operation \<Rightarrow> bool" where
  "is_Insert (Insert k v) = True"
| "is_Insert (Erase k) = False"

definition last_op_is_insert :: "('k, 'v) operation list \<Rightarrow> 'k \<Rightarrow> bool" where
  "last_op_is_insert ops k =
     (case List.find (\<lambda>op. op_key op = k) (rev ops) of
        None \<Rightarrow> False
      | Some op \<Rightarrow> is_Insert op)"

fun keys_after :: "'k set \<Rightarrow> ('k, 'v) operation list \<Rightarrow> 'k set" where
  "keys_after S [] = S"
| "keys_after S (Insert k v # ops) = keys_after (insert k S) ops"
| "keys_after S (Erase k # ops) = keys_after (S - {k}) ops"

text \<open>
  An instance for the examples: keys are natural numbers hashed by the identity, as
  \<^verbatim>\<open>std::hash\<close> hashes integers, in nodes of 16 bytes. And the lookup of a key after a
  sequence of insertions into an empty table.
\<close>

definition example_params :: "nat params" where
  "example_params = \<lparr>HashT = (\<lambda>k. k), sizeof_NodeT = 16\<rparr>"

definition lookup_after ::
  "'k params \<Rightarrow> ('k::zero \<times> 'v) list \<Rightarrow> 'k \<Rightarrow> ('k, 'v) MapNode option option" where
  "lookup_after P kvs k = do { t \<leftarrow> emplace_all P None kvs; lookup P t k }"
section \<open>The sizing helper\<close>

lemma bit_width_upper: "n < 2 ^ bit_width n"
proof (induction n rule: bit_width.induct)
  case (1 n)
  show ?case
  proof (cases "n = 0")
    case True
    then show ?thesis by (simp add: bit_width.simps)
  next
    case False
    then have "n div 2 < 2 ^ bit_width (n div 2)" using 1 by simp
    then have "n < 2 * 2 ^ bit_width (n div 2)" by linarith
    then show ?thesis using False by (subst bit_width.simps) simp
  qed
qed

lemma bit_width_lower: "n \<noteq> 0 \<Longrightarrow> 2 ^ (bit_width n - 1) \<le> n"
proof (induction n rule: bit_width.induct)
  case (1 n)
  show ?case
  proof (cases "n div 2 = 0")
    case True
    then have "bit_width n = 1" using 1(2)
      by (subst bit_width.simps) (simp add: bit_width.simps)
    then show ?thesis using 1(2) by simp
  next
    case False
    then have ih: "2 ^ (bit_width (n div 2) - 1) \<le> n div 2" using 1 by simp
    have pos: "bit_width (n div 2) \<noteq> 0" using False by (subst bit_width.simps) simp
    have "bit_width n = Suc (bit_width (n div 2))" using 1(2) by (subst bit_width.simps) simp
    then have "(2::nat) ^ (bit_width n - 1) = 2 * 2 ^ (bit_width (n div 2) - 1)"
      using pos by (cases "bit_width (n div 2)") simp_all
    then show ?thesis using ih by linarith
  qed
qed

lemma bit_width_le: "n < 2 ^ j \<Longrightarrow> bit_width n \<le> j"
proof (rule ccontr)
  assume a: "n < 2 ^ j" "\<not> bit_width n \<le> j"
  then have "n \<noteq> 0" by (cases "n = 0") (simp_all add: bit_width.simps [of 0])
  then have "2 ^ (bit_width n - 1) \<le> n" by (rule bit_width_lower)
  moreover have "(2::nat) ^ j \<le> 2 ^ (bit_width n - 1)" using a(2) by (intro power_increasing) auto
  ultimately show False using a(1) by linarith
qed

lemma normalize_eq:
  assumes "sz < 2 ^ 31"
  shows "normalize sz = Some (max (2 ^ bit_width sz) 8)"
proof -
  have bw: "bit_width sz \<le> 31" using assms by (rule bit_width_le)
  have m: "sz mod 2 ^ 32 = sz" using assms by simp
  have "(2::nat) ^ bit_width sz \<le> 2 ^ 31" using bw by (intro power_increasing) auto
  then have p: "(2::nat) ^ bit_width sz mod 2 ^ 32 = 2 ^ bit_width sz" by simp
  have c: "count_leading_zeroes32 sz = 32 - bit_width sz"
    unfolding count_leading_zeroes32_def m ..
  have s: "32 - count_leading_zeroes32 sz = bit_width sz" using bw unfolding c by simp
  show ?thesis unfolding normalize_def s Let_def push_bit_eq_mult using bw p by simp
qed

lemma normalize_pow:
  assumes "sz < 2 ^ 31"
  obtains j where "3 \<le> j" "j \<le> 31" "normalize sz = Some (2 ^ j)" "sz < 2 ^ j"
    "\<And>i. sz < 2 ^ i \<Longrightarrow> 3 \<le> i \<Longrightarrow> j \<le> i" "8 \<le> sz \<Longrightarrow> 2 ^ j \<le> 2 * sz"
proof -
  let ?j = "max (bit_width sz) 3"
  have bw: "bit_width sz \<le> 31" using assms by (rule bit_width_le)
  have "max ((2::nat) ^ bit_width sz) 8 = 2 ^ ?j"
  proof (cases "bit_width sz \<le> 3")
    case True
    then have "(2::nat) ^ bit_width sz \<le> 2 ^ 3" by (intro power_increasing) auto
    then show ?thesis using True by (simp add: max_def)
  next
    case False
    then have "(2::nat) ^ 3 \<le> 2 ^ bit_width sz" by (intro power_increasing) auto
    then show ?thesis using False by (simp add: max_def)
  qed
  then have 1: "normalize sz = Some (2 ^ ?j)" using normalize_eq [OF assms] by simp
  have "(2::nat) ^ bit_width sz \<le> 2 ^ ?j" by (intro power_increasing) auto
  then have 2: "sz < 2 ^ ?j" using bit_width_upper [of sz] by linarith
  have 3: "?j \<le> i" if "sz < 2 ^ i" "3 \<le> i" for i
    using bit_width_le [OF that(1)] that(2) by simp
  have 4: "2 ^ ?j \<le> 2 * sz" if "8 \<le> sz"
  proof -
    have "\<not> bit_width sz \<le> 3"
    proof
      assume "bit_width sz \<le> 3"
      then have "(2::nat) ^ bit_width sz \<le> 2 ^ 3" by (intro power_increasing) auto
      then show False using bit_width_upper [of sz] that by simp
    qed
    then have j: "?j = Suc (bit_width sz - 1)" by simp
    have "2 ^ (bit_width sz - 1) \<le> sz" using that by (intro bit_width_lower) simp
    then show ?thesis unfolding j by simp
  qed
  show ?thesis using that [of ?j] bw 1 2 3 4 by simp
qed

lemma normalize_least_pow2_above:
  assumes "sz < 2 ^ 31"
  obtains r where "normalize sz = Some r" "least_pow2_above sz r" "8 \<le> sz \<Longrightarrow> r \<le> 2 * sz"
    "sz < 8 \<Longrightarrow> r = 8"
proof -
  obtain j where j: "3 \<le> j" "j \<le> 31" "normalize sz = Some (2 ^ j)" "sz < 2 ^ j"
    "\<And>i. sz < 2 ^ i \<Longrightarrow> 3 \<le> i \<Longrightarrow> j \<le> i" "8 \<le> sz \<Longrightarrow> 2 ^ j \<le> 2 * sz"
    using normalize_pow [OF assms] by blast
  have p8: "(8::nat) \<le> 2 ^ j" using power_increasing [OF j(1), of "2::nat"] by simp
  have le: "(2::nat) ^ j \<le> 2 ^ i" if "sz < 2 ^ i" "(8::nat) \<le> 2 ^ i" for i
  proof -
    have "3 \<le> i"
    proof (rule ccontr)
      assume "\<not> 3 \<le> i"
      then have "i \<le> 2" by simp
      then have "(2::nat) ^ i \<le> 2 ^ 2" by (intro power_increasing) auto
      then show False using that(2) by simp
    qed
    then have "j \<le> i" using j(5) that(1) by simp
    then show ?thesis by (intro power_increasing) auto
  qed
  have l: "least_pow2_above sz (2 ^ j)"
    unfolding least_pow2_above_def using j(4) p8 le by blast
  have s: "(2::nat) ^ j = 8" if "sz < 8"
  proof -
    have "sz < 2 ^ 3" using that by simp
    then have "j \<le> 3" using j(5) by simp
    then have "j = 3" using j(1) by simp
    then show ?thesis by simp
  qed
  show ?thesis using that [OF j(3) l] j(6) s by blast
qed

text \<open>
  C3. For every \<open>sz < 2 ^ 31\<close>, \<open>normalize sz\<close> returns the smallest power of two that is
  strictly greater than \<open>sz\<close>, clamped to a minimum of 8; so \<open>normalize p = 2 * p\<close> for a
  power of two \<open>p \<ge> 8\<close>. (For \<open>sz \<ge> 2 ^ 31\<close> the shift is by 32 and has no defined result.)
\<close>

theorem normalize_next_power_of_two:
  assumes "sz < 2 ^ 31"
  shows "\<exists>r. normalize sz = Some r \<and> (\<exists>j. r = 2 ^ j) \<and> sz < r \<and> 8 \<le> r
           \<and> (\<forall>j. sz < 2 ^ j \<and> (8::nat) \<le> 2 ^ j \<longrightarrow> r \<le> 2 ^ j)
           \<and> (\<forall>j. 3 \<le> j \<and> sz = 2 ^ j \<longrightarrow> r = 2 * sz)"
proof -
  let ?r = "max (2 ^ bit_width sz) (8::nat)"
  have eq: "normalize sz = Some ?r" using assms by (rule normalize_eq)
  have p2: "\<exists>j. ?r = 2 ^ j"
  proof (cases "(2::nat) ^ bit_width sz \<le> 8")
    case True
    then have "?r = 2 ^ 3" by simp
    then show ?thesis by blast
  next
    case False
    then have "?r = 2 ^ bit_width sz" by simp
    then show ?thesis by blast
  qed
  have gt: "sz < ?r" using bit_width_upper [of sz] by simp
  have least: "?r \<le> 2 ^ j" if "sz < 2 ^ j" "(8::nat) \<le> 2 ^ j" for j
  proof -
    have "bit_width sz \<le> j" using that(1) by (rule bit_width_le)
    then have "(2::nat) ^ bit_width sz \<le> 2 ^ j" by (intro power_increasing) auto
    then show ?thesis using that(2) by simp
  qed
  have dbl: "?r = 2 * sz" if "3 \<le> j" "sz = 2 ^ j" for j
  proof -
    have "sz < 2 ^ Suc j" using that by simp
    then have le: "bit_width sz \<le> Suc j" by (rule bit_width_le)
    have "\<not> bit_width sz \<le> j"
    proof
      assume "bit_width sz \<le> j"
      then have "(2::nat) ^ bit_width sz \<le> 2 ^ j" by (intro power_increasing) auto
      then show False using bit_width_upper [of sz] that(2) by simp
    qed
    then have "bit_width sz = Suc j" using le by simp
    moreover have "(8::nat) \<le> 2 ^ j" using that(1) power_increasing [of 3 j "2::nat"] by simp
    ultimately show ?thesis using that(2) by simp
  qed
  have ge: "8 \<le> ?r" by simp
  show ?thesis using eq p2 gt ge least dbl by blast
qed

theorem normalize_next_power_of_two_witness:
  "(5::nat) < 2 ^ 31 \<and> normalize 5 = Some 8 \<and> normalize 16 = Some 32"
proof -
  have h: "(5::nat) < 2 ^ 31" by simp
  from normalize_next_power_of_two [OF h] obtain r where
    r: "normalize 5 = Some r \<and> (\<exists>j. r = 2 ^ j) \<and> 5 < r \<and> 8 \<le> r
         \<and> (\<forall>j. (5::nat) < 2 ^ j \<and> (8::nat) \<le> 2 ^ j \<longrightarrow> r \<le> 2 ^ j)
         \<and> (\<forall>j. 3 \<le> j \<and> (5::nat) = 2 ^ j \<longrightarrow> r = 2 * 5)" ..
  then have "(5::nat) < 2 ^ 3 \<and> (8::nat) \<le> 2 ^ 3 \<longrightarrow> r \<le> 2 ^ 3" by (elim conjE allE)
  then have "r \<le> 8" by simp
  with r have five: "normalize 5 = Some 8" by simp
  have h': "(16::nat) < 2 ^ 31" by simp
  from normalize_next_power_of_two [OF h'] obtain r' where
    r': "normalize 16 = Some r' \<and> (\<exists>j. r' = 2 ^ j) \<and> 16 < r' \<and> 8 \<le> r'
         \<and> (\<forall>j. (16::nat) < 2 ^ j \<and> (8::nat) \<le> 2 ^ j \<longrightarrow> r' \<le> 2 ^ j)
         \<and> (\<forall>j. 3 \<le> j \<and> (16::nat) = 2 ^ j \<longrightarrow> r' = 2 * 16)" ..
  then have "3 \<le> (4::nat) \<and> (16::nat) = 2 ^ 4 \<longrightarrow> r' = 2 * 16" by (elim conjE allE)
  then have "r' = 32" by simp
  with r' five h show ?thesis by simp
qed

text \<open>
  The claim as stated fails at \<open>8\<close>: the smallest power of two that is at least 8 is 8
  itself, and \<open>normalize 8\<close> is 16.
\<close>

theorem normalize_8_counterexample:
  "normalize 8 = Some 16 \<and> normalize 8 \<noteq> Some (2 ^ 3)"
  by (simp add: normalize_def count_leading_zeroes32_def bit_width.simps)
section \<open>Move construction and move assignment\<close>

text \<open>
  C8. After move construction or move assignment from a table \<open>t\<close>, the moved-from table
  is in the null state: its \<open>size()\<close> and its \<open>bucket_count()\<close> are 0. The destination
  holds what \<open>t\<close> held.
\<close>

theorem move_leaves_source_null:
  "size_table (snd (move_construct t)) = 0
   \<and> bucket_count (snd (move_construct t)) = 0
   \<and> snd (move_construct t) = None
   \<and> fst (move_construct t) = t
   \<and> size_table (snd (move_assign d t)) = 0
   \<and> bucket_count (snd (move_assign d t)) = 0
   \<and> snd (move_assign d t) = None
   \<and> fst (move_assign d t) = t"
  by (simp add: move_construct_def move_assign_def size_table_def bucket_count_def)

section \<open>Arithmetic of buckets\<close>

lemma and_mask_nat: "(x::nat) AND (2 ^ j - 1) = x mod 2 ^ j"
  by (metis mask_eq_exp_minus_1 take_bit_eq_mask take_bit_eq_mod)

lemma cdist_less: "a < n \<Longrightarrow> b < n \<Longrightarrow> cdist n a b < n"
  by (auto simp: cdist_def)

lemma cdist_self [simp]: "cdist n a a = 0"
  by (simp add: cdist_def)

lemma cdist_eq_0_iff: "a < n \<Longrightarrow> b < n \<Longrightarrow> cdist n a b = 0 \<longleftrightarrow> a = b"
  by (auto simp: cdist_def)

lemma mod_add_less_twice: "(x::nat) < 2 * n \<Longrightarrow> x mod n = (if x < n then x else x - n)"
  by (auto simp: mod_if)

lemma cdist_add: "a < n \<Longrightarrow> i < n \<Longrightarrow> cdist n a ((a + i) mod n) = i"
  by (auto simp: cdist_def mod_add_less_twice)

lemma add_cdist: "a < n \<Longrightarrow> b < n \<Longrightarrow> (a + cdist n a b) mod n = b"
  by (auto simp: cdist_def mod_add_less_twice)

lemma add_mod_less: "a < n \<Longrightarrow> (a + i) mod n < n" for a :: nat
  by simp

lemma cyclic_range_iff:
  assumes "h < n" "b < n"
  shows "x \<in> cyclic_range n h b \<longleftrightarrow> x < n \<and> cdist n h x < cdist n h b"
proof
  assume "x \<in> cyclic_range n h b"
  then obtain i where i: "i < cdist n h b" "x = (h + i) mod n"
    by (auto simp: cyclic_range_def)
  have "i < n" using i(1) cdist_less [OF assms] by simp
  then show "x < n \<and> cdist n h x < cdist n h b"
    using i assms by (simp add: cdist_add)
next
  assume a: "x < n \<and> cdist n h x < cdist n h b"
  then have "x = (h + cdist n h x) mod n" using assms by (simp add: add_cdist)
  then show "x \<in> cyclic_range n h b" using a unfolding cyclic_range_def by blast
qed

section \<open>The layout of a table\<close>

lemma layout_okD:
  assumes "layout_ok P inner"
  shows "8 \<le> length (nodes inner)" "length (nodes inner) \<le> 2 ^ 29"
    "bucket_count_mask inner = length (nodes inner) - 1"
    "length (nodes inner) \<le> max_bucket_count P"
proof -
  from assms obtain j where j: "3 \<le> j" "length (nodes inner) = 2 ^ j"
    "bucket_count_mask inner = 2 ^ j - 1" "2 ^ j \<le> max_bucket_count P"
    unfolding layout_ok_def by blast
  have "(2::nat) ^ 3 \<le> 2 ^ j" using j(1) by (intro power_increasing) auto
  then show "8 \<le> length (nodes inner)" using j(2) by simp
  show "length (nodes inner) \<le> 2 ^ 29" using j(2,4) by (simp add: max_bucket_count_def)
  show "bucket_count_mask inner = length (nodes inner) - 1" using j by simp
  show "length (nodes inner) \<le> max_bucket_count P" using j by simp
qed

lemma layout_and_mask:
  assumes "layout_ok P inner"
  shows "x AND bucket_count_mask inner = x mod length (nodes inner)"
proof -
  from assms obtain j where "length (nodes inner) = 2 ^ j" "bucket_count_mask inner = 2 ^ j - 1"
    unfolding layout_ok_def by blast
  then show ?thesis using and_mask_nat [of x j] by simp
qed

lemma calc_bucket_less:
  assumes "layout_ok P inner"
  shows "calc_bucket P inner key < length (nodes inner)"
proof -
  have "nodes inner \<noteq> []" using layout_okD(1) [OF assms] by auto
  then show ?thesis using assms by (simp add: calc_bucket_def layout_and_mask)
qed

lemma next_bucket_eq:
  assumes "layout_ok P inner" "b < length (nodes inner)"
  shows "next_bucket inner b = (b + 1) mod length (nodes inner)"
proof -
  have "b + 1 < 2 ^ 32" using assms(2) layout_okD(2) [OF assms(1)] by simp
  then show ?thesis using assms(1) by (simp add: next_bucket_def u32_add_def layout_and_mask)
qed

lemma bucket_count_eq:
  assumes "layout_ok P inner"
  shows "bucket_count (Some inner) = length (nodes inner)"
  using layout_okD [OF assms] by (simp add: bucket_count_def u32_add_def)

lemma layout_ok_nodes_update [simp]:
  "length ns = length (nodes inner) \<Longrightarrow> layout_ok P (inner\<lparr>nodes := ns\<rparr>) = layout_ok P inner"
  by (simp add: layout_ok_def)

lemma layout_ok_used_update [simp]:
  "layout_ok P (inner\<lparr>used_node_count := u\<rparr>) = layout_ok P inner"
  by (simp add: layout_ok_def)

lemma calc_bucket_nodes_update [simp]:
  "calc_bucket P (inner\<lparr>nodes := ns\<rparr>) key = calc_bucket P inner key"
  "calc_bucket P (inner\<lparr>used_node_count := u\<rparr>) key = calc_bucket P inner key"
  by (simp_all add: calc_bucket_def)

lemma next_bucket_nodes_update [simp]:
  "next_bucket (inner\<lparr>nodes := ns\<rparr>) b = next_bucket inner b"
  "next_bucket (inner\<lparr>used_node_count := u\<rparr>) b = next_bucket inner b"
  by (simp_all add: next_bucket_def)

section \<open>Entries and keys of a bucket array\<close>

lemma node_empty_default [simp]: "node_empty MapNode_default"
  by (simp add: node_empty_def MapNode_default_def is_key_empty_def)

lemma node_empty_iff: "node_empty node \<longleftrightarrow> first node = 0"
  by (simp add: node_empty_def is_key_empty_def)

lemma in_entries_iff: "x \<in># entries ns \<longleftrightarrow> x \<in> set ns \<and> \<not> node_empty x"
  by (simp add: entries_def)

lemma entries_update:
  assumes "i < length ns"
  shows "entries (ns[i := x]) =
           (if node_empty x then {#} else {#x#})
           + (entries ns - (if node_empty (ns ! i) then {#} else {#ns ! i#}))"
proof -
  have "mset (ns[i := x]) = add_mset x (mset ns - {#ns ! i#})"
    using assms by (rule mset_update)
  then show ?thesis by (simp add: entries_def filter_diff_mset)
qed

lemma entries_replicate_default [simp]: "entries (replicate n MapNode_default) = {#}"
  by (simp add: entries_def)

lemma size_entries_le: "size (entries ns) \<le> length ns"
  unfolding entries_def by (metis size_filter_mset_lesseq size_mset)

lemma exists_empty_bucket:
  assumes "size (entries ns) < length ns"
  shows "\<exists>z < length ns. node_empty (ns ! z)"
proof (rule ccontr)
  assume "\<not> ?thesis"
  then have "\<forall>x \<in> set ns. \<not> node_empty x" by (auto simp: in_set_conv_nth)
  then have "entries ns = mset ns" by (simp add: entries_def filter_mset_eq_conv)
  then show False using assms by simp
qed

lemma distinct_iff_count_le_1: "distinct xs \<longleftrightarrow> (\<forall>a. count (mset xs) a \<le> 1)"
proof
  assume "distinct xs"
  then show "\<forall>a. count (mset xs) a \<le> 1" by (simp add: distinct_count_atmost_1)
next
  assume a: "\<forall>a. count (mset xs) a \<le> 1"
  have "count (mset xs) a = (if a \<in> set xs then 1 else 0)" for a
  proof (cases "a \<in> set xs")
    case True
    then have "0 < count (mset xs) a" by (simp add: count_greater_zero_iff)
    with a [rule_format, of a] have "count (mset xs) a = 1" by linarith
    then show ?thesis using True by simp
  next
    case False
    then show ?thesis by (simp add: count_eq_zero_iff)
  qed
  then show "distinct xs" by (simp add: distinct_count_atmost_1)
qed

lemma keys_distinct_count:
  "keys_distinct ns \<longleftrightarrow> (\<forall>k. count (image_mset first (entries ns)) k \<le> 1)"
proof -
  have "mset (map first (filter (\<lambda>node. \<not> node_empty node) ns)) = image_mset first (entries ns)"
    by (simp add: entries_def)
  then show ?thesis
    unfolding keys_distinct_def distinct_iff_count_le_1 by simp
qed

lemma distinct_map_filter_nth:
  assumes "distinct (map f (filter Q xs))" "i < length xs" "j < length xs"
    "Q (xs ! i)" "Q (xs ! j)" "f (xs ! i) = f (xs ! j)"
  shows "i = j"
  using assms
proof (induction xs arbitrary: i j)
  case Nil
  then show ?case by simp
next
  case (Cons a xs)
  have key: False if "Q a" "k < length xs" "Q (xs ! k)" "f a = f (xs ! k)" for k
  proof -
    have "xs ! k \<in> set (filter Q xs)" using that by simp
    then have "f (xs ! k) \<in> f ` set (filter Q xs)" by (rule imageI)
    moreover have "f a \<notin> f ` set (filter Q xs)" using Cons.prems(1) that(1) by simp
    ultimately show False using that(4) by simp
  qed
  have tl: "distinct (map f (filter Q xs))" using Cons.prems(1) by (simp split: if_splits)
  show ?case
  proof (cases i)
    case 0
    note i0 = this
    show ?thesis
    proof (cases j)
      case 0
      then show ?thesis using i0 by simp
    next
      case (Suc j')
      then have False using key [of j'] Cons.prems i0 by simp
      then show ?thesis ..
    qed
  next
    case (Suc i')
    note i = this
    show ?thesis
    proof (cases j)
      case 0
      then have False using key [of i'] Cons.prems i by simp
      then show ?thesis ..
    next
      case (Suc j')
      then show ?thesis using Cons.IH [OF tl, of i' j'] Cons.prems i by simp
    qed
  qed
qed

lemma keys_distinctD:
  assumes "keys_distinct ns" "b < length ns" "b' < length ns"
    "\<not> node_empty (ns ! b)" "first (ns ! b) = first (ns ! b')"
  shows "b = b'"
proof -
  have "\<not> node_empty (ns ! b')" using assms(4,5) by (simp add: node_empty_iff)
  then show ?thesis
    using distinct_map_filter_nth [OF assms(1) [unfolded keys_distinct_def] assms(2,3) assms(4) _ assms(5)]
    by simp
qed

lemma key_absent_count:
  assumes "\<forall>x \<in> set ns. first x \<noteq> key"
  shows "count (image_mset first (entries ns)) key = 0"
proof -
  have "key \<notin># image_mset first (entries ns)"
  proof
    assume "key \<in># image_mset first (entries ns)"
    then obtain x where x: "x \<in># entries ns" "key = first x" by auto
    then have "x \<in> set ns" by (simp add: in_entries_iff)
    with assms have "first x \<noteq> key" by blast
    then show False using x(2) by simp
  qed
  then show ?thesis by (simp only: not_in_iff)
qed

section \<open>Contiguity by distances\<close>

lemma probe_contiguous_iff:
  assumes "layout_ok P inner"
  shows "probe_contiguous P inner \<longleftrightarrow> contiguous_from (calc_bucket P inner) (nodes inner)"
proof -
  have *: "x \<in> cyclic_range (length (nodes inner)) (calc_bucket P inner k) b
             \<longleftrightarrow> x < length (nodes inner)
                 \<and> cdist (length (nodes inner)) (calc_bucket P inner k) x
                     < cdist (length (nodes inner)) (calc_bucket P inner k) b"
    if "b < length (nodes inner)" for b x k
    using cyclic_range_iff [OF calc_bucket_less [OF assms] that] .
  show ?thesis
    unfolding probe_contiguous_def contiguous_from_def
    by (simp add: Ball_def *) blast
qed

lemma first_stop:
  assumes "(z::nat) < n" "stop z" "b < n"
  obtains d where "d < n" "stop ((b + d) mod n)" "\<forall>i<d. \<not> stop ((b + i) mod n)"
proof -
  let ?Q = "\<lambda>i. stop ((b + i) mod n)"
  define d where "d = (LEAST i. ?Q i)"
  have w: "?Q (cdist n b z)" using assms by (simp add: add_cdist)
  have 1: "?Q d" unfolding d_def using w by (rule LeastI)
  have "d \<le> cdist n b z" unfolding d_def using w by (rule Least_le)
  then have 2: "d < n" using cdist_less [OF assms(3,1)] by simp
  have 3: "\<forall>i<d. \<not> ?Q i" unfolding d_def using not_less_Least by blast
  show ?thesis using that 1 2 3 by blast
qed

section \<open>Probing\<close>

lemma next_bucket_add:
  assumes "layout_ok P inner"
  shows "next_bucket inner ((b + d) mod length (nodes inner)) = (b + Suc d) mod length (nodes inner)"
proof -
  have "nodes inner \<noteq> []" using layout_okD(1) [OF assms] by auto
  then have "(b + d) mod length (nodes inner) < length (nodes inner)" by simp
  then have "next_bucket inner ((b + d) mod length (nodes inner))
      = ((b + d) mod length (nodes inner) + 1) mod length (nodes inner)"
    using assms by (rule next_bucket_eq [rotated])
  then show ?thesis by (simp add: mod_Suc_eq)
qed

lemma invariant_has_empty:
  assumes "layout_ok P inner" "used_node_count inner = size (entries (nodes inner))"
    "used_node_count inner * 5 \<le> bucket_count_mask inner * 3 + 5"
  shows "size (entries (nodes inner)) < length (nodes inner)"
  using assms layout_okD [OF assms(1)] by simp

subsection \<open>The loop of find\<close>

lemma find_loop_hit:
  "first (nodes inner ! b) = key
   \<Longrightarrow> find_loop inner key b = Some (Iterator_new (Some b) (Some inner))"
  by (subst find_loop.simps) simp

lemma find_loop_miss:
  "first (nodes inner ! b) \<noteq> key \<Longrightarrow> node_empty (nodes inner ! b)
   \<Longrightarrow> find_loop inner key b = Some (end_iterator (Some inner))"
  by (subst find_loop.simps) simp

lemma find_loop_step:
  "first (nodes inner ! b) \<noteq> key \<Longrightarrow> \<not> node_empty (nodes inner ! b)
   \<Longrightarrow> find_loop inner key b = find_loop inner key (next_bucket inner b)"
  by (subst find_loop.simps) simp

lemma find_loop_skip:
  assumes "layout_ok P inner" "b < length (nodes inner)"
    "\<forall>i<d. first (nodes inner ! ((b + i) mod length (nodes inner))) \<noteq> key
           \<and> \<not> node_empty (nodes inner ! ((b + i) mod length (nodes inner)))"
  shows "find_loop inner key b = find_loop inner key ((b + d) mod length (nodes inner))"
  using assms(3)
proof (induction d)
  case 0
  then show ?case using assms(2) by simp
next
  case (Suc d)
  then have "find_loop inner key b = find_loop inner key ((b + d) mod length (nodes inner))"
    by simp
  also have "\<dots> = find_loop inner key (next_bucket inner ((b + d) mod length (nodes inner)))"
    using Suc.prems by (intro find_loop_step) simp_all
  finally show ?case by (simp only: next_bucket_add [OF assms(1)])
qed

lemma find_loop_present:
  assumes "layout_ok P inner" "contiguous_from (calc_bucket P inner) (nodes inner)"
    "keys_distinct (nodes inner)" "p < length (nodes inner)" "first (nodes inner ! p) = key"
    "key \<noteq> 0"
  shows "find_loop inner key (calc_bucket P inner key) = Some (Iterator_new (Some p) (Some inner))"
proof -
  let ?n = "length (nodes inner)" and ?h = "calc_bucket P inner key"
  have h: "?h < ?n" using assms(1) by (rule calc_bucket_less)
  have occ: "\<not> node_empty (nodes inner ! p)" using assms(5,6) by (simp add: node_empty_iff)
  have run: "first (nodes inner ! ((?h + i) mod ?n)) \<noteq> key
             \<and> \<not> node_empty (nodes inner ! ((?h + i) mod ?n))"
    if "i < cdist ?n ?h p" for i
  proof -
    let ?x = "(?h + i) mod ?n"
    have i: "i < ?n" using that cdist_less [OF h assms(4)] by simp
    have x: "?x < ?n" using h by (rule add_mod_less)
    have dx: "cdist ?n ?h ?x = i" using h i by (rule cdist_add)
    have "\<not> node_empty (nodes inner ! ?x)"
      using assms(2) [unfolded contiguous_from_def, rule_format, OF assms(4) occ x]
        that dx assms(5) by simp
    moreover have "first (nodes inner ! ?x) \<noteq> key"
    proof
      assume "first (nodes inner ! ?x) = key"
      then have "p = ?x" using keys_distinctD [OF assms(3) assms(4) x occ] assms(5) by simp
      then show False using dx that by simp
    qed
    ultimately show ?thesis by simp
  qed
  have "find_loop inner key ?h = find_loop inner key ((?h + cdist ?n ?h p) mod ?n)"
    using assms(1) h run by (intro find_loop_skip) blast+
  also have "\<dots> = find_loop inner key p" using h assms(4) by (simp add: add_cdist)
  finally show ?thesis using assms(5) by (simp add: find_loop_hit)
qed

lemma find_loop_absent:
  assumes "layout_ok P inner" "size (entries (nodes inner)) < length (nodes inner)"
    "\<forall>x < length (nodes inner). first (nodes inner ! x) \<noteq> key" "b < length (nodes inner)"
  shows "find_loop inner key b = Some (end_iterator (Some inner))"
proof -
  let ?n = "length (nodes inner)"
  obtain z where z: "z < ?n" "node_empty (nodes inner ! z)"
    using exists_empty_bucket [OF assms(2)] by blast
  obtain d where d: "d < ?n" "node_empty (nodes inner ! ((b + d) mod ?n))"
    "\<forall>i<d. \<not> node_empty (nodes inner ! ((b + i) mod ?n))"
    using first_stop [of z ?n "\<lambda>x. node_empty (nodes inner ! x)" b] z assms(4) by blast
  have x: "(b + i) mod ?n < ?n" for i using assms(4) by (rule add_mod_less)
  have "find_loop inner key b = find_loop inner key ((b + d) mod ?n)"
    using assms(1,4) d(3) assms(3) x by (intro find_loop_skip) blast+
  then show ?thesis using d(2) assms(3) x by (simp add: find_loop_miss)
qed

subsection \<open>The probe for an empty bucket\<close>

lemma probe_empty_stop:
  "node_empty (nodes inner ! b) \<Longrightarrow> probe_empty inner b = Some b"
  by (subst probe_empty.simps) simp

lemma probe_empty_step:
  "\<not> node_empty (nodes inner ! b) \<Longrightarrow> probe_empty inner b = probe_empty inner (next_bucket inner b)"
  by (subst probe_empty.simps) simp

lemma probe_empty_skip:
  assumes "layout_ok P inner" "b < length (nodes inner)"
    "\<forall>i<d. \<not> node_empty (nodes inner ! ((b + i) mod length (nodes inner)))"
  shows "probe_empty inner b = probe_empty inner ((b + d) mod length (nodes inner))"
  using assms(3)
proof (induction d)
  case 0
  then show ?case using assms(2) by simp
next
  case (Suc d)
  then have "probe_empty inner b = probe_empty inner ((b + d) mod length (nodes inner))"
    by simp
  also have "\<dots> = probe_empty inner (next_bucket inner ((b + d) mod length (nodes inner)))"
    using Suc.prems by (intro probe_empty_step) simp_all
  finally show ?case by (simp only: next_bucket_add [OF assms(1)])
qed

lemma probe_empty_first:
  assumes "layout_ok P inner" "size (entries (nodes inner)) < length (nodes inner)"
    "b < length (nodes inner)"
  obtains e where "e < length (nodes inner)" "probe_empty inner b = Some e"
    "node_empty (nodes inner ! e)"
    "\<forall>y < length (nodes inner).
        cdist (length (nodes inner)) b y < cdist (length (nodes inner)) b e
        \<longrightarrow> \<not> node_empty (nodes inner ! y)"
proof -
  let ?n = "length (nodes inner)"
  obtain z where z: "z < ?n" "node_empty (nodes inner ! z)"
    using exists_empty_bucket [OF assms(2)] by blast
  obtain d where d: "d < ?n" "node_empty (nodes inner ! ((b + d) mod ?n))"
    "\<forall>i<d. \<not> node_empty (nodes inner ! ((b + i) mod ?n))"
    using first_stop [of z ?n "\<lambda>x. node_empty (nodes inner ! x)" b] z assms(3) by blast
  let ?e = "(b + d) mod ?n"
  have e: "?e < ?n" using assms(3) by (rule add_mod_less)
  have "probe_empty inner b = probe_empty inner ?e"
    using assms(1,3) d(3) by (rule probe_empty_skip)
  then have 1: "probe_empty inner b = Some ?e" using d(2) by (simp add: probe_empty_stop)
  have de: "cdist ?n b ?e = d" using assms(3) d(1) by (rule cdist_add)
  have 2: "\<not> node_empty (nodes inner ! y)" if "y < ?n" "cdist ?n b y < cdist ?n b ?e" for y
  proof -
    have "y = (b + cdist ?n b y) mod ?n" using assms(3) that(1) by (simp add: add_cdist)
    then show ?thesis using d(3) [rule_format, of "cdist ?n b y"] that(2) de by simp
  qed
  show ?thesis using that [OF e 1 d(2)] 2 by blast
qed

subsection \<open>Contiguity after an insertion\<close>

lemma contiguous_insert:
  assumes "contiguous_from h ns" "e < length ns" "\<not> node_empty x"
    "\<forall>y < length ns. cdist (length ns) (h (first x)) y < cdist (length ns) (h (first x)) e
        \<longrightarrow> \<not> node_empty (ns ! y)"
  shows "contiguous_from h (ns[e := x])"
  unfolding contiguous_from_def
proof (intro allI impI)
  fix b y
  assume b: "b < length (ns[e := x])" "\<not> node_empty (ns[e := x] ! b)"
    and y: "y < length (ns[e := x])"
    "cdist (length (ns[e := x])) (h (first (ns[e := x] ! b))) y
       < cdist (length (ns[e := x])) (h (first (ns[e := x] ! b))) b"
  have old: "\<not> node_empty (ns ! y)"
  proof (cases "b = e")
    case True
    then show ?thesis using assms(2,4) b y by simp
  next
    case False
    then show ?thesis
      using assms(1) [unfolded contiguous_from_def, rule_format, of b y] b y by simp
  qed
  show "\<not> node_empty (ns[e := x] ! y)"
    using old assms(2,3) y(1) by (cases "y = e") simp_all
qed

subsection \<open>The loop of emplace\<close>

lemma MapNode_update_all [simp]:
  "(node :: ('k, 'v) MapNode)\<lparr>first := k, second := s\<rparr> = \<lparr>first = k, second = s\<rparr>"
  by (cases node) simp

lemma MapNode_eta [simp]:
  "\<lparr>first = first node, second = second node\<rparr> = (node :: ('k, 'v) MapNode)"
  by (cases node) simp

lemma emplace_loop_hit:
  "first (nodes inner ! b) = key
   \<Longrightarrow> emplace_loop inner key args b
       = Some (Some inner, Iterator_new (Some b) (Some inner), False)"
  by (subst emplace_loop.simps) simp

lemma emplace_loop_insert:
  "first (nodes inner ! b) \<noteq> key \<Longrightarrow> node_empty (nodes inner ! b)
   \<Longrightarrow> emplace_loop inner key args b
       = Some (Some (inner\<lparr>nodes := (nodes inner)[b := \<lparr>first = key, second = Some args\<rparr>],
                          used_node_count := u32_add (used_node_count inner) 1\<rparr>),
               Iterator_new (Some b)
                 (Some (inner\<lparr>nodes := (nodes inner)[b := \<lparr>first = key, second = Some args\<rparr>],
                          used_node_count := u32_add (used_node_count inner) 1\<rparr>)),
               True)"
  by (subst emplace_loop.simps) (simp add: node_emplace_def Let_def)

lemma emplace_loop_step:
  "first (nodes inner ! b) \<noteq> key \<Longrightarrow> \<not> node_empty (nodes inner ! b)
   \<Longrightarrow> emplace_loop inner key args b = emplace_loop inner key args (next_bucket inner b)"
  by (subst emplace_loop.simps) simp

lemma emplace_loop_skip:
  assumes "layout_ok P inner" "b < length (nodes inner)"
    "\<forall>i<d. first (nodes inner ! ((b + i) mod length (nodes inner))) \<noteq> key
           \<and> \<not> node_empty (nodes inner ! ((b + i) mod length (nodes inner)))"
  shows "emplace_loop inner key args b
         = emplace_loop inner key args ((b + d) mod length (nodes inner))"
  using assms(3)
proof (induction d)
  case 0
  then show ?case using assms(2) by simp
next
  case (Suc d)
  then have "emplace_loop inner key args b
      = emplace_loop inner key args ((b + d) mod length (nodes inner))"
    by simp
  also have "\<dots> = emplace_loop inner key args (next_bucket inner ((b + d) mod length (nodes inner)))"
    using Suc.prems by (intro emplace_loop_step) simp_all
  finally show ?case by (simp only: next_bucket_add [OF assms(1)])
qed

lemma emplace_loop_present:
  assumes "layout_ok P inner" "contiguous_from (calc_bucket P inner) (nodes inner)"
    "keys_distinct (nodes inner)" "p < length (nodes inner)" "first (nodes inner ! p) = key"
    "key \<noteq> 0"
  shows "emplace_loop inner key args (calc_bucket P inner key)
         = Some (Some inner, Iterator_new (Some p) (Some inner), False)"
proof -
  let ?n = "length (nodes inner)" and ?h = "calc_bucket P inner key"
  have h: "?h < ?n" using assms(1) by (rule calc_bucket_less)
  have occ: "\<not> node_empty (nodes inner ! p)" using assms(5,6) by (simp add: node_empty_iff)
  have run: "first (nodes inner ! ((?h + i) mod ?n)) \<noteq> key
             \<and> \<not> node_empty (nodes inner ! ((?h + i) mod ?n))"
    if "i < cdist ?n ?h p" for i
  proof -
    let ?x = "(?h + i) mod ?n"
    have i: "i < ?n" using that cdist_less [OF h assms(4)] by simp
    have x: "?x < ?n" using h by (rule add_mod_less)
    have dx: "cdist ?n ?h ?x = i" using h i by (rule cdist_add)
    have "\<not> node_empty (nodes inner ! ?x)"
      using assms(2) [unfolded contiguous_from_def, rule_format, OF assms(4) occ x]
        that dx assms(5) by simp
    moreover have "first (nodes inner ! ?x) \<noteq> key"
    proof
      assume "first (nodes inner ! ?x) = key"
      then have "p = ?x" using keys_distinctD [OF assms(3) assms(4) x occ] assms(5) by simp
      then show False using dx that by simp
    qed
    ultimately show ?thesis by simp
  qed
  have "emplace_loop inner key args ?h
      = emplace_loop inner key args ((?h + cdist ?n ?h p) mod ?n)"
    using assms(1) h run by (intro emplace_loop_skip) blast+
  also have "\<dots> = emplace_loop inner key args p" using h assms(4) by (simp add: add_cdist)
  finally show ?thesis using assms(5) by (simp add: emplace_loop_hit)
qed

lemma emplace_loop_absent:
  assumes "layout_ok P inner" "size (entries (nodes inner)) < length (nodes inner)"
    "\<forall>x < length (nodes inner). first (nodes inner ! x) \<noteq> key"
  obtains e where "e < length (nodes inner)" "node_empty (nodes inner ! e)"
    "emplace_loop inner key args (calc_bucket P inner key)
       = Some (Some (inner\<lparr>nodes := (nodes inner)[e := \<lparr>first = key, second = Some args\<rparr>],
                          used_node_count := u32_add (used_node_count inner) 1\<rparr>),
               Iterator_new (Some e)
                 (Some (inner\<lparr>nodes := (nodes inner)[e := \<lparr>first = key, second = Some args\<rparr>],
                          used_node_count := u32_add (used_node_count inner) 1\<rparr>)),
               True)"
    "\<forall>y < length (nodes inner).
        cdist (length (nodes inner)) (calc_bucket P inner key) y
          < cdist (length (nodes inner)) (calc_bucket P inner key) e
        \<longrightarrow> \<not> node_empty (nodes inner ! y)"
proof -
  let ?n = "length (nodes inner)" and ?h = "calc_bucket P inner key"
  have h: "?h < ?n" using assms(1) by (rule calc_bucket_less)
  obtain z where z: "z < ?n" "node_empty (nodes inner ! z)"
    using exists_empty_bucket [OF assms(2)] by blast
  obtain d where d: "d < ?n" "node_empty (nodes inner ! ((?h + d) mod ?n))"
    "\<forall>i<d. \<not> node_empty (nodes inner ! ((?h + i) mod ?n))"
    using first_stop [of z ?n "\<lambda>x. node_empty (nodes inner ! x)" ?h] z h by blast
  let ?e = "(?h + d) mod ?n"
  have x: "(?h + i) mod ?n < ?n" for i using h by (rule add_mod_less)
  have "emplace_loop inner key args ?h = emplace_loop inner key args ?e"
    using assms(1) h d(3) assms(3) x by (intro emplace_loop_skip) blast+
  then have 1: "emplace_loop inner key args ?h
       = Some (Some (inner\<lparr>nodes := (nodes inner)[?e := \<lparr>first = key, second = Some args\<rparr>],
                          used_node_count := u32_add (used_node_count inner) 1\<rparr>),
               Iterator_new (Some ?e)
                 (Some (inner\<lparr>nodes := (nodes inner)[?e := \<lparr>first = key, second = Some args\<rparr>],
                          used_node_count := u32_add (used_node_count inner) 1\<rparr>)),
               True)"
    using d(2) assms(3) x by (simp add: emplace_loop_insert)
  have de: "cdist ?n ?h ?e = d" using h d(1) by (rule cdist_add)
  have 2: "\<not> node_empty (nodes inner ! y)" if "y < ?n" "cdist ?n ?h y < cdist ?n ?h ?e" for y
  proof -
    have "y = (?h + cdist ?n ?h y) mod ?n" using h that(1) by (simp add: add_cdist)
    then show ?thesis using d(3) [rule_format, of "cdist ?n ?h y"] that(2) de by simp
  qed
  show ?thesis using that [OF x d(2) 1] 2 by blast
qed

subsection \<open>The loop of begin\<close>

lemma begin_loop_stop:
  "\<not> node_empty (nodes inner ! b) \<Longrightarrow> begin_loop inner b = Some b"
  by (subst begin_loop.simps) simp

lemma begin_loop_step:
  "node_empty (nodes inner ! b) \<Longrightarrow> begin_loop inner b = begin_loop inner (next_bucket inner b)"
  by (subst begin_loop.simps) simp

lemma begin_loop_skip:
  assumes "layout_ok P inner" "b < length (nodes inner)"
    "\<forall>i<d. node_empty (nodes inner ! ((b + i) mod length (nodes inner)))"
  shows "begin_loop inner b = begin_loop inner ((b + d) mod length (nodes inner))"
  using assms(3)
proof (induction d)
  case 0
  then show ?case using assms(2) by simp
next
  case (Suc d)
  then have "begin_loop inner b = begin_loop inner ((b + d) mod length (nodes inner))"
    by simp
  also have "\<dots> = begin_loop inner (next_bucket inner ((b + d) mod length (nodes inner)))"
    using Suc.prems by (intro begin_loop_step) simp_all
  finally show ?case by (simp only: next_bucket_add [OF assms(1)])
qed

lemma begin_loop_first:
  assumes "layout_ok P inner" "z < length (nodes inner)" "\<not> node_empty (nodes inner ! z)"
    "b < length (nodes inner)"
  obtains s where "s < length (nodes inner)" "begin_loop inner b = Some s"
    "\<not> node_empty (nodes inner ! s)"
proof -
  let ?n = "length (nodes inner)"
  obtain d where d: "d < ?n" "\<not> node_empty (nodes inner ! ((b + d) mod ?n))"
    "\<forall>i<d. \<not> \<not> node_empty (nodes inner ! ((b + i) mod ?n))"
    using first_stop [of z ?n "\<lambda>x. \<not> node_empty (nodes inner ! x)" b] assms(2,3,4) by blast
  let ?s = "(b + d) mod ?n"
  have s: "?s < ?n" using assms(4) by (rule add_mod_less)
  have "begin_loop inner b = begin_loop inner ?s"
    using assms(1,4) d(3) by (intro begin_loop_skip) simp_all
  then have "begin_loop inner b = Some ?s" using d(2) by (simp add: begin_loop_stop)
  then show ?thesis using that s d(2) by blast
qed

section \<open>Rehashing\<close>

lemma u32_sub_less: "b \<le> a \<Longrightarrow> a < 2 ^ 32 \<Longrightarrow> u32_sub a b = a - b"
proof -
  assume a: "b \<le> a" "a < 2 ^ 32"
  then have "b mod 2 ^ 32 = b" by simp
  moreover have "a + 2 ^ 32 - b = (a - b) + 2 ^ 32" using a by simp
  moreover have "(a - b) mod 2 ^ 32 = a - b" using a by simp
  ultimately show ?thesis unfolding u32_sub_def by (simp only: mod_add_self2)
qed

lemma u32_sub_1: "0 < n \<Longrightarrow> n < 2 ^ 32 \<Longrightarrow> u32_sub n 1 = n - 1"
  by (rule u32_sub_less) simp_all

lemma calc_bucket_fun_update [simp]:
  "calc_bucket P (inner\<lparr>nodes := ns\<rparr>) = calc_bucket P inner"
  "calc_bucket P (inner\<lparr>used_node_count := u\<rparr>) = calc_bucket P inner"
  by (rule ext, simp)+

lemma inner_nodes_same [simp]: "inner\<lparr>nodes := nodes inner\<rparr> = inner"
  by simp

lemma contiguous_from_all_empty:
  "\<forall>x \<in> set ns. node_empty x \<Longrightarrow> contiguous_from h ns"
  by (simp add: contiguous_from_def)

lemma entries_Cons:
  "entries (x # xs) = (if node_empty x then entries xs else add_mset x (entries xs))"
  by (simp add: entries_def)

lemma resize_loop_correct:
  assumes "layout_ok P inner" "contiguous_from (calc_bucket P inner) (nodes inner)"
    "size (entries (nodes inner)) + size (entries olds) < length (nodes inner)"
  shows "\<exists>ns'. resize_loop P olds inner = Some (inner\<lparr>nodes := ns'\<rparr>)
           \<and> length ns' = length (nodes inner)
           \<and> contiguous_from (calc_bucket P inner) ns'
           \<and> entries ns' = entries (nodes inner) + entries olds"
  using assms
proof (induction olds arbitrary: inner)
  case Nil
  show ?case
    by (rule exI [of _ "nodes inner"]) (use Nil in \<open>simp add: entries_def\<close>)
next
  case (Cons old olds)
  show ?case
  proof (cases "node_empty old")
    case True
    then show ?thesis using Cons.IH [OF Cons.prems(1,2)] Cons.prems(3)
      by (simp add: entries_Cons)
  next
    case False
    let ?n = "length (nodes inner)" and ?h = "calc_bucket P inner (first old)"
    have h: "?h < ?n" using Cons.prems(1) by (rule calc_bucket_less)
    have room: "size (entries (nodes inner)) < ?n" using Cons.prems(3) by simp
    obtain e where e: "e < ?n" "probe_empty inner ?h = Some e" "node_empty (nodes inner ! e)"
      "\<forall>y < ?n. cdist ?n ?h y < cdist ?n ?h e \<longrightarrow> \<not> node_empty (nodes inner ! y)"
      using probe_empty_first [OF Cons.prems(1) room h] by blast
    let ?inner1 = "inner\<lparr>nodes := (nodes inner)[e := old]\<rparr>"
    have l1: "layout_ok P ?inner1" using Cons.prems(1) by simp
    have c1: "contiguous_from (calc_bucket P ?inner1) (nodes ?inner1)"
      using contiguous_insert [OF Cons.prems(2) e(1) False e(4)] by simp
    have e1: "entries (nodes ?inner1) = add_mset old (entries (nodes inner))"
      using e(1,3) False by (simp add: entries_update)
    have s1: "size (entries (nodes ?inner1)) + size (entries olds) < length (nodes ?inner1)"
      using Cons.prems(3) False e1 by (simp add: entries_Cons)
    from Cons.IH [OF l1 c1 s1] obtain ns' where ns':
      "resize_loop P olds ?inner1 = Some (?inner1\<lparr>nodes := ns'\<rparr>)"
      "length ns' = length (nodes ?inner1)"
      "contiguous_from (calc_bucket P ?inner1) ns'"
      "entries ns' = entries (nodes ?inner1) + entries olds"
      by blast
    have "resize_loop P (old # olds) inner = Some (inner\<lparr>nodes := ns'\<rparr>)"
      using False e(2) ns'(1) by (simp add: node_move_def)
    moreover have "entries ns' = entries (nodes inner) + entries (old # olds)"
      using ns'(4) e1 False by (simp add: entries_Cons)
    ultimately show ?thesis using ns'(2,3) by auto
  qed
qed

lemma allocate_nodes_ok:
  assumes "0 < sz" "sz \<le> max_bucket_count P"
  shows "allocate_nodes P sz
         = Some \<lparr>used_node_count = 0, bucket_count_mask = sz - 1,
                 nodes = replicate sz MapNode_default\<rparr>"
proof -
  have "sz < 2 ^ 32" using assms(2) by (simp add: max_bucket_count_def)
  with assms(1) have "u32_sub sz 1 = sz - 1" by (rule u32_sub_1)
  then show ?thesis using assms by (simp add: allocate_nodes_def CHECK_def)
qed

lemma layout_ok_fresh:
  assumes "3 \<le> j" "2 ^ j \<le> max_bucket_count P"
  shows "layout_ok P \<lparr>used_node_count = u, bucket_count_mask = 2 ^ j - 1,
                       nodes = replicate (2 ^ j) MapNode_default\<rparr>"
  unfolding layout_ok_def using assms by (intro exI [of _ j]) simp

lemma resize_null:
  assumes "3 \<le> j" "2 ^ j \<le> max_bucket_count P"
  shows "resize P None (2 ^ j)
         = Some (Some \<lparr>used_node_count = 0, bucket_count_mask = 2 ^ j - 1,
                       nodes = replicate (2 ^ j) MapNode_default\<rparr>)"
  using assms by (simp add: resize_def allocate_nodes_ok)

lemma resize_correct:
  assumes "layout_ok P old" "3 \<le> j" "2 ^ j \<le> max_bucket_count P"
    "size (entries (nodes old)) < 2 ^ j"
  shows "\<exists>ns'. resize P (Some old) (2 ^ j)
             = Some (Some \<lparr>used_node_count = used_node_count old,
                           bucket_count_mask = 2 ^ j - 1, nodes = ns'\<rparr>)
           \<and> length ns' = 2 ^ j
           \<and> layout_ok P \<lparr>used_node_count = used_node_count old,
                           bucket_count_mask = 2 ^ j - 1, nodes = ns'\<rparr>
           \<and> contiguous_from
               (calc_bucket P \<lparr>used_node_count = used_node_count old,
                                bucket_count_mask = 2 ^ j - 1, nodes = ns'\<rparr>) ns'
           \<and> entries ns' = entries (nodes old)"
proof -
  let ?new = "\<lparr>used_node_count = used_node_count old, bucket_count_mask = 2 ^ j - 1,
               nodes = replicate (2 ^ j) MapNode_default\<rparr> :: ('a, 'b) FlatHashTableInner"
  have l: "layout_ok P ?new" using assms(2,3) by (rule layout_ok_fresh)
  have c: "contiguous_from (calc_bucket P ?new) (nodes ?new)"
    by (rule contiguous_from_all_empty) simp
  have s: "size (entries (nodes ?new)) + size (entries (nodes old)) < length (nodes ?new)"
    using assms(4) by simp
  from resize_loop_correct [OF l c s] obtain ns' where ns':
    "resize_loop P (nodes old) ?new = Some (?new\<lparr>nodes := ns'\<rparr>)"
    "length ns' = length (nodes ?new)"
    "contiguous_from (calc_bucket P ?new) ns'"
    "entries ns' = entries (nodes ?new) + entries (nodes old)"
    by blast
  have tk: "take (u32_add (bucket_count_mask old) (Suc 0)) (nodes old) = nodes old"
    using bucket_count_eq [OF assms(1)] by (simp add: bucket_count_def)
  have "resize P (Some old) (2 ^ j)
      = Some (Some \<lparr>used_node_count = used_node_count old,
                    bucket_count_mask = 2 ^ j - 1, nodes = ns'\<rparr>)"
    using assms(3) ns'(1) by (simp add: resize_def allocate_nodes_ok tk)
  moreover have "layout_ok P \<lparr>used_node_count = used_node_count old,
                           bucket_count_mask = 2 ^ j - 1, nodes = ns'\<rparr>"
    using l ns'(2) by (simp add: layout_ok_def)
  moreover have "contiguous_from
               (calc_bucket P \<lparr>used_node_count = used_node_count old,
                                bucket_count_mask = 2 ^ j - 1, nodes = ns'\<rparr>) ns'"
  proof -
    have "calc_bucket P \<lparr>used_node_count = used_node_count old,
                               bucket_count_mask = 2 ^ j - 1, nodes = ns'\<rparr>
          = calc_bucket P ?new"
      by (rule ext) (simp add: calc_bucket_def)
    then show ?thesis using ns'(3) by simp
  qed
  ultimately show ?thesis using ns'(2,4) by simp
qed

section \<open>The invariant through lookup and insertion\<close>

lemma invariantD:
  assumes "invariant P inner"
  shows "layout_ok P inner" "used_node_count inner = size (entries (nodes inner))"
    "used_node_count inner * 5 \<le> bucket_count_mask inner * 3 + 5"
    "contiguous_from (calc_bucket P inner) (nodes inner)" "keys_distinct (nodes inner)"
    "size (entries (nodes inner)) < length (nodes inner)"
proof -
  show l: "layout_ok P inner" and u: "used_node_count inner = size (entries (nodes inner))"
    and b: "used_node_count inner * 5 \<le> bucket_count_mask inner * 3 + 5"
    and "keys_distinct (nodes inner)"
    using assms by (simp_all add: invariant_def)
  show "contiguous_from (calc_bucket P inner) (nodes inner)"
    using assms probe_contiguous_iff [OF l] by (simp add: invariant_def)
  show "size (entries (nodes inner)) < length (nodes inner)"
    using l u b by (rule invariant_has_empty)
qed

lemma invariantI:
  assumes "layout_ok P inner" "used_node_count inner = size (entries (nodes inner))"
    "used_node_count inner * 5 \<le> bucket_count_mask inner * 3 + 5"
    "contiguous_from (calc_bucket P inner) (nodes inner)" "keys_distinct (nodes inner)"
  shows "invariant P inner"
  using assms probe_contiguous_iff [OF assms(1)] by (simp add: invariant_def)

lemma keys_distinct_cong:
  "entries ns' = entries ns \<Longrightarrow> keys_distinct ns' = keys_distinct ns"
  by (simp add: keys_distinct_count)

lemma in_table_keys_iff:
  "key \<in> table_keys (Some inner)
   \<longleftrightarrow> key \<noteq> 0 \<and> (\<exists>p < length (nodes inner). first (nodes inner ! p) = key)"
proof
  assume "key \<in> table_keys (Some inner)"
  then obtain x where x: "x \<in> set (nodes inner)" "\<not> node_empty x" "first x = key"
    by (auto simp: table_keys_def table_entries_def in_entries_iff)
  then show "key \<noteq> 0 \<and> (\<exists>p < length (nodes inner). first (nodes inner ! p) = key)"
    by (auto simp: in_set_conv_nth node_empty_iff)
next
  assume "key \<noteq> 0 \<and> (\<exists>p < length (nodes inner). first (nodes inner ! p) = key)"
  then obtain p where p: "key \<noteq> 0" "p < length (nodes inner)" "first (nodes inner ! p) = key"
    by blast
  then have "nodes inner ! p \<in># entries (nodes inner)"
    by (simp add: in_entries_iff node_empty_iff)
  then show "key \<in> table_keys (Some inner)"
    using p(3) by (auto simp: table_keys_def table_entries_def)
qed

lemma table_keys_None [simp]: "table_keys None = {}"
  by (simp add: table_keys_def table_entries_def)

lemma zero_notin_table_keys [simp]: "0 \<notin> table_keys t"
  by (cases t) (simp_all add: in_table_keys_iff)

lemma find_present:
  assumes "invariant P inner" "p < length (nodes inner)" "first (nodes inner ! p) = key"
    "key \<noteq> 0"
  shows "find P (Some inner) key = Some (Iterator_new (Some p) (Some inner))"
  using find_loop_present [OF invariantD(1,4,5) [OF assms(1)] assms(2,3,4)] assms(4)
  by (simp add: find_def is_key_empty_def)

lemma find_absent:
  assumes "wf_table P t" "key \<notin> table_keys t"
  shows "find P t key = Some (end_iterator t)"
proof (cases t)
  case None
  then show ?thesis by (simp add: find_def)
next
  case (Some inner)
  show ?thesis
  proof (cases "key = 0")
    case True
    then show ?thesis using Some by (simp add: find_def is_key_empty_def)
  next
    case False
    have inv: "invariant P inner" using assms(1) Some by (simp add: wf_table_def)
    have "\<forall>x < length (nodes inner). first (nodes inner ! x) \<noteq> key"
      using assms(2) False Some by (auto simp: in_table_keys_iff)
    then have "find_loop inner key (calc_bucket P inner key) = Some (end_iterator (Some inner))"
      using invariantD(1,6) [OF inv] calc_bucket_less [OF invariantD(1) [OF inv]]
      by (intro find_loop_absent)
    then show ?thesis using Some False by (simp add: find_def is_key_empty_def)
  qed
qed

lemma u32_small [simp]:
  "a + b < 2 ^ 32 \<Longrightarrow> u32_add a b = a + b"
  "a * b < 2 ^ 32 \<Longrightarrow> u32_mul a b = a * b"
  by (simp_all add: u32_add_def u32_mul_def)

lemma invariant_fresh:
  assumes "8 \<le> max_bucket_count P"
  shows "invariant P \<lparr>used_node_count = 0, bucket_count_mask = 7,
                        nodes = replicate 8 MapNode_default\<rparr>"
proof -
  have "layout_ok P \<lparr>used_node_count = 0, bucket_count_mask = 2 ^ 3 - 1,
                       nodes = replicate (2 ^ 3) MapNode_default\<rparr>"
    using assms by (intro layout_ok_fresh) simp_all
  then show ?thesis
    by (intro invariantI) (simp_all add: contiguous_from_all_empty keys_distinct_count)
qed

lemma try_grow_null:
  assumes "8 \<le> max_bucket_count P"
  shows "try_grow P None
         = Some (Some \<lparr>used_node_count = 0, bucket_count_mask = 7,
                       nodes = replicate 8 MapNode_default\<rparr>)"
  using resize_null [of 3 P] assms by (simp add: try_grow_def)

lemma try_grow_correct:
  assumes "invariant P inner" "grow_ok P (Some inner)"
  obtains inner' where "try_grow P (Some inner) = Some (Some inner')" "invariant P inner'"
    "used_node_count inner' * 5 \<le> bucket_count_mask inner' * 3"
    "entries (nodes inner') = entries (nodes inner)"
    "used_node_count inner' = used_node_count inner"
    "bucket_count_mask inner'
       = (if used_node_count inner * 5 > bucket_count_mask inner * 3
          then 2 * bucket_count_mask inner + 1 else bucket_count_mask inner)"
proof -
  note l = invariantD(1) [OF assms(1)]
  note lay = layout_okD [OF l]
  note room = invariantD(6) [OF assms(1)]
  note used = invariantD(2) [OF assms(1)]
  have u5: "u32_mul (used_node_count inner) 5 = used_node_count inner * 5"
    using used room lay(2) by (intro u32_small) simp
  have m3: "u32_mul (bucket_count_mask inner) 3 = bucket_count_mask inner * 3"
    using lay(2,3) by (intro u32_small) simp
  show ?thesis
  proof (cases "used_node_count inner * 5 > bucket_count_mask inner * 3")
    case False
    then have "try_grow P (Some inner) = Some (Some inner)"
      by (simp add: try_grow_def u5 m3)
    then show ?thesis using that [of inner] assms(1) False by simp
  next
    case True
    from l obtain j where j: "3 \<le> j" "length (nodes inner) = 2 ^ j"
      "bucket_count_mask inner = 2 ^ j - 1"
      unfolding layout_ok_def by blast
    have p8: "(8::nat) \<le> 2 ^ j" using lay(1) j(2) by simp
    have m1: "bucket_count_mask inner + 1 = 2 ^ j" using j(3) p8 by simp
    have sz: "u32_add (u32_mul 2 (bucket_count_mask inner)) 2 = 2 ^ Suc j"
    proof -
      have "2 * bucket_count_mask inner + 2 = 2 ^ Suc j" using m1 by simp
      moreover have "2 * bucket_count_mask inner + 2 < 2 ^ 32" using lay(2,3) by simp
      ultimately show ?thesis by (simp add: u32_add_def u32_mul_def)
    qed
    have mx: "2 ^ Suc j \<le> max_bucket_count P"
      using assms(2) True m1 by (simp add: grow_ok_def)
    have rm: "size (entries (nodes inner)) < 2 ^ Suc j" using room j(2) by simp
    from resize_correct [OF l _ mx rm] j(1) obtain ns' where ns':
      "resize P (Some inner) (2 ^ Suc j)
         = Some (Some \<lparr>used_node_count = used_node_count inner,
                       bucket_count_mask = 2 ^ Suc j - 1, nodes = ns'\<rparr>)"
      "length ns' = 2 ^ Suc j"
      "layout_ok P \<lparr>used_node_count = used_node_count inner,
                     bucket_count_mask = 2 ^ Suc j - 1, nodes = ns'\<rparr>"
      "contiguous_from
         (calc_bucket P \<lparr>used_node_count = used_node_count inner,
                          bucket_count_mask = 2 ^ Suc j - 1, nodes = ns'\<rparr>) ns'"
      "entries ns' = entries (nodes inner)"
      by (metis le_SucI)
    let ?inner' = "\<lparr>used_node_count = used_node_count inner,
                    bucket_count_mask = 2 ^ Suc j - 1, nodes = ns'\<rparr>"
    have 1: "try_grow P (Some inner) = Some (Some ?inner')"
      using True ns'(1) by (simp add: try_grow_def u5 m3 sz del: power_Suc)
    have ld: "used_node_count ?inner' * 5 \<le> bucket_count_mask ?inner' * 3"
      using invariantD(3) [OF assms(1)] m1 p8 by simp
    have 2: "invariant P ?inner'"
      using ns'(3,4,5) used ld invariantD(5) [OF assms(1)] keys_distinct_cong [OF ns'(5)]
      by (intro invariantI) simp_all
    have 3: "bucket_count_mask ?inner' = 2 * bucket_count_mask inner + 1"
      using m1 p8 by simp
    show ?thesis using that [OF 1 2 ld] ns'(5) 3 True by simp
  qed
qed

lemma table_keys_Some: "table_keys (Some inner) = first ` set_mset (entries (nodes inner))"
  by (simp add: table_keys_def table_entries_def)

lemma keys_distinct_insert:
  assumes "keys_distinct ns" "e < length ns" "node_empty (ns ! e)" "\<not> node_empty x"
    "\<forall>y \<in> set ns. first y \<noteq> first x"
  shows "keys_distinct (ns[e := x])"
proof -
  have e: "entries (ns[e := x]) = add_mset x (entries ns)"
    using assms(2,3,4) by (simp add: entries_update)
  have "count (image_mset first (entries (ns[e := x]))) k \<le> 1" for k
  proof (cases "k = first x")
    case True
    then show ?thesis using key_absent_count [OF assms(5)] e by simp
  next
    case False
    then show ?thesis using assms(1) e by (simp add: keys_distinct_count)
  qed
  then show ?thesis by (simp add: keys_distinct_count)
qed

lemma try_grow_any:
  assumes "wf_table P t" "grow_ok P t"
  obtains inner1 where "try_grow P t = Some (Some inner1)" "invariant P inner1"
    "used_node_count inner1 * 5 \<le> bucket_count_mask inner1 * 3"
    "entries (nodes inner1) = table_entries t"
    "bucket_count_mask inner1
       = (case t of None \<Rightarrow> 7
          | Some inner \<Rightarrow>
              if used_node_count inner * 5 > bucket_count_mask inner * 3
              then 2 * bucket_count_mask inner + 1 else bucket_count_mask inner)"
proof (cases t)
  case None
  have mx: "8 \<le> max_bucket_count P" using assms(2) None by (simp add: grow_ok_def)
  let ?i = "\<lparr>used_node_count = 0, bucket_count_mask = 7,
             nodes = replicate 8 MapNode_default\<rparr> :: ('a, 'b) FlatHashTableInner"
  show ?thesis
  proof (rule that [of ?i])
    show "try_grow P t = Some (Some ?i)" using try_grow_null [OF mx] None by simp
    show "invariant P ?i" by (rule invariant_fresh [OF mx])
    show "used_node_count ?i * 5 \<le> bucket_count_mask ?i * 3" by simp
    show "entries (nodes ?i) = table_entries t" by (simp add: None table_entries_def)
    show "bucket_count_mask ?i
       = (case t of None \<Rightarrow> 7
          | Some inner \<Rightarrow>
              if used_node_count inner * 5 > bucket_count_mask inner * 3
              then 2 * bucket_count_mask inner + 1 else bucket_count_mask inner)"
      by (simp add: None)
  qed
next
  case (Some inner)
  have inv: "invariant P inner" using assms(1) Some by (simp add: wf_table_def)
  have gr: "grow_ok P (Some inner)" using assms(2) Some by simp
  from try_grow_correct [OF inv gr] obtain inner' where i':
    "try_grow P (Some inner) = Some (Some inner')" "invariant P inner'"
    "used_node_count inner' * 5 \<le> bucket_count_mask inner' * 3"
    "entries (nodes inner') = entries (nodes inner)"
    "used_node_count inner' = used_node_count inner"
    "bucket_count_mask inner'
       = (if used_node_count inner * 5 > bucket_count_mask inner * 3
          then 2 * bucket_count_mask inner + 1 else bucket_count_mask inner)"
    by blast
  show ?thesis
  proof (rule that [of inner'])
    show "try_grow P t = Some (Some inner')" using i'(1) Some by simp
    show "invariant P inner'" by (rule i'(2))
    show "used_node_count inner' * 5 \<le> bucket_count_mask inner' * 3" by (rule i'(3))
    show "entries (nodes inner') = table_entries t" using i'(4) Some by (simp add: table_entries_def)
    show "bucket_count_mask inner'
       = (case t of None \<Rightarrow> 7
          | Some inner \<Rightarrow>
              if used_node_count inner * 5 > bucket_count_mask inner * 3
              then 2 * bucket_count_mask inner + 1 else bucket_count_mask inner)"
      using i'(6) Some by simp
  qed
qed

lemma emplace_correct:
  assumes "wf_table P t" "grow_ok P t" "key \<noteq> 0"
  obtains inner' p where
    "emplace P t key args
       = Some (Some inner', Iterator_new (Some p) (Some inner'), key \<notin> table_keys t)"
    "invariant P inner'" "p < length (nodes inner')" "first (nodes inner' ! p) = key"
    "entries (nodes inner')
       = (if key \<in> table_keys t then table_entries t
          else add_mset \<lparr>first = key, second = Some args\<rparr> (table_entries t))"
    "bucket_count_mask inner'
       = (case t of None \<Rightarrow> 7
          | Some inner \<Rightarrow>
              if used_node_count inner * 5 > bucket_count_mask inner * 3
              then 2 * bucket_count_mask inner + 1 else bucket_count_mask inner)"
    "used_node_count inner' * 5
       \<le> bucket_count_mask inner' * 3 + (if key \<in> table_keys t then 0 else 5)"
proof -
  obtain inner1 where g: "try_grow P t = Some (Some inner1)" "invariant P inner1"
    "used_node_count inner1 * 5 \<le> bucket_count_mask inner1 * 3"
    "entries (nodes inner1) = table_entries t"
    "bucket_count_mask inner1
       = (case t of None \<Rightarrow> 7
          | Some inner \<Rightarrow>
              if used_node_count inner * 5 > bucket_count_mask inner * 3
              then 2 * bucket_count_mask inner + 1 else bucket_count_mask inner)"
    using try_grow_any [OF assms(1,2)] by blast
  note d = invariantD [OF g(2)]
  note lay = layout_okD [OF d(1)]
  have keys: "table_keys (Some inner1) = table_keys t"
    using g(4) by (simp add: table_keys_def table_entries_def)
  have em: "emplace P t key args = emplace_loop inner1 key args (calc_bucket P inner1 key)"
    using g(1) assms(3) by (simp add: emplace_def CHECK_def is_key_empty_def)
  show ?thesis
  proof (cases "key \<in> table_keys t")
    case True
    then have "key \<in> table_keys (Some inner1)" using keys by simp
    then obtain p where p: "p < length (nodes inner1)" "first (nodes inner1 ! p) = key"
      unfolding in_table_keys_iff by blast
    have "emplace P t key args = Some (Some inner1, Iterator_new (Some p) (Some inner1), False)"
      using emplace_loop_present [OF d(1,4,5) p assms(3)] em by simp
    then show ?thesis using that [of inner1 p] True g p by simp
  next
    case False
    have "key \<notin> table_keys (Some inner1)" using False keys by simp
    then have ab: "\<forall>x < length (nodes inner1). first (nodes inner1 ! x) \<noteq> key"
      unfolding in_table_keys_iff using assms(3) by blast
    let ?node = "\<lparr>first = key, second = Some args\<rparr>"
    obtain e where e: "e < length (nodes inner1)" "node_empty (nodes inner1 ! e)"
      "emplace_loop inner1 key args (calc_bucket P inner1 key)
        = Some (Some (inner1\<lparr>nodes := (nodes inner1)[e := ?node],
                          used_node_count := u32_add (used_node_count inner1) 1\<rparr>),
               Iterator_new (Some e)
                 (Some (inner1\<lparr>nodes := (nodes inner1)[e := ?node],
                          used_node_count := u32_add (used_node_count inner1) 1\<rparr>)),
               True)"
      "\<forall>y < length (nodes inner1).
        cdist (length (nodes inner1)) (calc_bucket P inner1 key) y
          < cdist (length (nodes inner1)) (calc_bucket P inner1 key) e
        \<longrightarrow> \<not> node_empty (nodes inner1 ! y)"
      using emplace_loop_absent [OF d(1,6) ab] by blast
    have u: "u32_add (used_node_count inner1) 1 = used_node_count inner1 + 1"
      using d(2,6) lay(2) by (intro u32_small) simp
    let ?inner' = "inner1\<lparr>nodes := (nodes inner1)[e := ?node],
                          used_node_count := used_node_count inner1 + 1\<rparr>"
    have occ: "\<not> node_empty ?node" using assms(3) by (simp add: node_empty_iff)
    have en: "entries (nodes ?inner') = add_mset ?node (entries (nodes inner1))"
      using e(1,2) occ by (simp add: entries_update)
    have ab': "\<forall>y \<in> set (nodes inner1). first y \<noteq> first ?node"
      using ab by (auto simp: in_set_conv_nth)
    have c: "contiguous_from (calc_bucket P ?inner') (nodes ?inner')"
      using contiguous_insert [OF d(4) e(1) occ] e(4) by simp
    have k: "keys_distinct (nodes ?inner')"
      using keys_distinct_insert [OF d(5) e(1,2) occ ab'] by simp
    have inv: "invariant P ?inner'"
      using d(1) d(2) g(3) c k en by (intro invariantI) simp_all
    have 1: "emplace P t key args
       = Some (Some ?inner', Iterator_new (Some e) (Some ?inner'), key \<notin> table_keys t)"
      using em e(3) u False by simp
    show ?thesis
      using that [OF 1 inv] e(1) en g(3,4,5) False by simp
  qed
qed

section \<open>Backward-shift deletion\<close>

subsection \<open>Arithmetic of the linearised positions\<close>

lemma cdist_inj: "a < n \<Longrightarrow> b < n \<Longrightarrow> c < n \<Longrightarrow> cdist n a b = cdist n a c \<Longrightarrow> b = c"
  by (auto simp: cdist_def split: if_splits)

lemma cdist_stay:
  assumes "e < n" "t < n" "w < n" "0 < cdist n e w" "cdist n e w \<le> cdist n e t"
  shows "\<not> cdist n w e < cdist n w t"
  using assms by (auto simp: cdist_def split: if_splits)

lemma cdist_move:
  assumes "e < n" "t < n" "w < n" "t \<noteq> e" "\<not> (0 < cdist n e w \<and> cdist n e w \<le> cdist n e t)"
  shows "cdist n w e < cdist n w t"
  using assms by (auto simp: cdist_def split: if_splits)

lemma cdist_through:
  assumes "a < n" "e < n" "t < n" "b < n" "cdist n a e < cdist n a b" "cdist n e t < cdist n e b"
  shows "cdist n a t < cdist n a b"
  using assms by (auto simp: cdist_def split: if_splits)

lemma cdist_split:
  assumes "e < n" "t < n" "z < n" "cdist n e t \<le> cdist n e z"
  shows "cdist n t z = cdist n e z - cdist n e t"
  using assms by (auto simp: cdist_def split: if_splits)

lemma cdist_lin:
  assumes "e_lin < t_lin" "t_lin < e_lin + n" "t_lin < 2 * n"
  shows "cdist n (e_lin mod n) (t_lin mod n) = t_lin - e_lin"
  using assms by (auto simp: cdist_def mod_add_less_twice split: if_splits)

lemma move_cond:
  assumes "e_lin < t_lin" "t_lin < e_lin + n" "t_lin < 2 * n" "w < n"
  shows "((if w < e_lin then w + n else w) \<le> e_lin \<or> (if w < e_lin then w + n else w) > t_lin)
         \<longleftrightarrow> \<not> (0 < cdist n (e_lin mod n) w
                 \<and> cdist n (e_lin mod n) w \<le> cdist n (e_lin mod n) (t_lin mod n))"
  using assms by (auto simp: cdist_def mod_add_less_twice split: if_splits)

subsection \<open>Contiguity around the emptied bucket\<close>

lemma contiguous_but_start:
  assumes "contiguous_from h ns" "p < length ns"
  shows "contiguous_but p h (ns[p := node_clear (ns ! p)])"
  unfolding contiguous_but_def
proof (intro allI impI)
  let ?ns' = "ns[p := node_clear (ns ! p)]"
  fix b x
  assume b: "b < length ?ns'" "\<not> node_empty (?ns' ! b)"
    and x: "x < length ?ns'"
    "cdist (length ?ns') (h (first (?ns' ! b))) x < cdist (length ?ns') (h (first (?ns' ! b))) b"
  have "b \<noteq> p" using b assms(2) by (auto simp: node_clear_def node_empty_iff)
  then have "\<not> node_empty (ns ! x)"
    using assms(1) [unfolded contiguous_from_def, rule_format, of b x] b x by simp
  then show "\<not> node_empty (?ns' ! x) \<or> x = p" by (cases "x = p") simp_all
qed

lemma contiguous_but_move:
  assumes "contiguous_but e h ns" "e < length ns" "t < length ns" "t \<noteq> e"
    "\<not> node_empty (ns ! t)"
    "cdist (length ns) (h (first (ns ! t))) e < cdist (length ns) (h (first (ns ! t))) t"
  shows "contiguous_but t h (ns[e := ns ! t, t := MapNode_default])"
  unfolding contiguous_but_def
proof (intro allI impI)
  let ?ns' = "ns[e := ns ! t, t := MapNode_default]"
  let ?n = "length ns"
  fix b x
  assume b: "b < length ?ns'" "\<not> node_empty (?ns' ! b)"
    and x: "x < length ?ns'"
    "cdist (length ?ns') (h (first (?ns' ! b))) x < cdist (length ?ns') (h (first (?ns' ! b))) b"
  have bt: "b \<noteq> t" using b assms(3) by auto
  have old: "\<not> node_empty (ns ! x) \<or> x = e"
  proof (cases "b = e")
    case True
    then have "cdist ?n (h (first (ns ! t))) x < cdist ?n (h (first (ns ! t))) t"
      using x(2) assms(2,4,6) by simp
    then show ?thesis
      using assms(1) [unfolded contiguous_but_def, rule_format, of t x] assms(3,5) x(1) by simp
  next
    case False
    then show ?thesis
      using assms(1) [unfolded contiguous_but_def, rule_format, of b x] b x bt by simp
  qed
  have xe: "x \<noteq> e" if "b = e"
    using x(2) that assms(2,4) by auto
  show "\<not> node_empty (?ns' ! x) \<or> x = t"
  proof (cases "x = t")
    case True
    then show ?thesis by simp
  next
    case False
    note xt = this
    show ?thesis
    proof (cases "x = e")
      case True
      then show ?thesis using assms(2,4,5) xt by simp
    next
      case False
      then show ?thesis using old xt by simp
    qed
  qed
qed

lemma contiguous_final:
  assumes "contiguous_but e h ns" "e < length ns" "t < length ns"
    "node_empty (ns ! e)" "node_empty (ns ! t)" "\<forall>k. h k < length ns" "t \<noteq> e"
    "\<forall>b < length ns. \<not> node_empty (ns ! b) \<longrightarrow> cdist (length ns) e b < cdist (length ns) e t
        \<longrightarrow> \<not> cdist (length ns) (h (first (ns ! b))) e < cdist (length ns) (h (first (ns ! b))) b"
  shows "contiguous_from h ns"
  unfolding contiguous_from_def
proof (intro allI impI)
  let ?n = "length ns"
  fix b x
  assume b: "b < ?n" "\<not> node_empty (ns ! b)"
    and x: "x < ?n" "cdist ?n (h (first (ns ! b))) x < cdist ?n (h (first (ns ! b))) b"
  let ?a = "h (first (ns ! b))"
  have a: "?a < ?n" using assms(6) by simp
  show "\<not> node_empty (ns ! x)"
  proof (rule ccontr)
    assume "\<not> \<not> node_empty (ns ! x)"
    then have xe: "x = e"
      using assms(1) [unfolded contiguous_but_def, rule_format, OF b x] by simp
    have bt: "b \<noteq> t" using b assms(5) by auto
    have "\<not> cdist ?n e b < cdist ?n e t"
      using assms(8) [rule_format, OF b] x(2) xe by blast
    moreover have "cdist ?n e b \<noteq> cdist ?n e t"
      using cdist_inj [OF assms(2) b(1) assms(3)] bt by blast
    ultimately have "cdist ?n e t < cdist ?n e b" by simp
    then have "cdist ?n ?a t < cdist ?n ?a b"
      using cdist_through [OF a assms(2,3) b(1)] x(2) xe by simp
    then have "\<not> node_empty (ns ! t) \<or> t = e"
      using assms(1) [unfolded contiguous_but_def, rule_format, OF b assms(3)] by simp
    then show False using assms(5,7) by simp
  qed
qed

subsection \<open>The loop of erase_node\<close>

lemma erase_node_loop_unfold:
  assumes "layout_ok P inner" "t_lin < 2 * length (nodes inner)"
  shows "erase_node_loop P inner e_lin e t_lin =
     (if node_empty (nodes inner ! (t_lin mod length (nodes inner))) then Some inner
      else if (if calc_bucket P inner (first (nodes inner ! (t_lin mod length (nodes inner)))) < e_lin
               then calc_bucket P inner (first (nodes inner ! (t_lin mod length (nodes inner))))
                    + length (nodes inner)
               else calc_bucket P inner (first (nodes inner ! (t_lin mod length (nodes inner)))))
              \<le> e_lin
            \<or> (if calc_bucket P inner (first (nodes inner ! (t_lin mod length (nodes inner)))) < e_lin
               then calc_bucket P inner (first (nodes inner ! (t_lin mod length (nodes inner))))
                    + length (nodes inner)
               else calc_bucket P inner (first (nodes inner ! (t_lin mod length (nodes inner)))))
              > t_lin
      then erase_node_loop P
             (inner\<lparr>nodes := (nodes inner)[e := nodes inner ! (t_lin mod length (nodes inner)),
                                              t_lin mod length (nodes inner) := MapNode_default]\<rparr>)
             t_lin (t_lin mod length (nodes inner)) (t_lin + 1)
      else erase_node_loop P inner e_lin e (t_lin + 1))"
proof -
  note lay = layout_okD [OF assms(1)]
  let ?n = "length (nodes inner)"
  have bc: "bucket_count (Some inner) = ?n" using assms(1) by (rule bucket_count_eq)
  have tl: "t_lin < 2 ^ 32" using assms(2) lay(2) by simp
  have tb: "(if t_lin \<ge> ?n then u32_sub t_lin ?n else t_lin) = t_lin mod ?n"
    using assms(2) tl by (simp add: u32_sub_less mod_add_less_twice)
  have w: "u32_add (calc_bucket P inner k) ?n = calc_bucket P inner k + ?n" for k
    using calc_bucket_less [OF assms(1), of k] lay(2) by (intro u32_small) simp
  have t1: "u32_add t_lin 1 = t_lin + 1" using assms(2) lay(2) by (intro u32_small) simp
  show ?thesis
    apply (subst erase_node_loop.simps)
    apply (simp only: Let_def bc tb w t1 node_move_def MapNode_default_def prod.case)
    apply (simp only: FlatHashTableInner.simps MapNode_eta)
    apply (simp cong: if_cong)
    done
qed

lemma entries_move:
  assumes "e < length ns" "t < length ns" "t \<noteq> e" "node_empty (ns ! e)"
  shows "entries (ns[e := ns ! t, t := MapNode_default]) = entries ns"
proof -
  have "entries (ns[e := ns ! t]) = (if node_empty (ns ! t) then {#} else {#ns ! t#}) + entries ns"
    using assms(1,4) by (simp add: entries_update)
  moreover have "entries (ns[e := ns ! t, t := MapNode_default])
      = entries (ns[e := ns ! t]) - (if node_empty (ns ! t) then {#} else {#ns ! t#})"
    using assms(2,3) by (simp add: entries_update)
  ultimately show ?thesis by simp
qed

lemma erase_node_loop_correct:
  assumes "layout_ok P inner"
    and "e_lin < t_lin"
    and "t_lin \<le> e_lin + cdist (length (nodes inner)) (e_lin mod length (nodes inner)) z"
    and "z < length (nodes inner)" "node_empty (nodes inner ! z)"
    and "e_lin + cdist (length (nodes inner)) (e_lin mod length (nodes inner)) z
           < 2 * length (nodes inner)"
    and "node_empty (nodes inner ! (e_lin mod length (nodes inner)))"
    and "contiguous_but (e_lin mod length (nodes inner)) (calc_bucket P inner) (nodes inner)"
    and "\<forall>b < length (nodes inner). \<not> node_empty (nodes inner ! b) \<longrightarrow>
           cdist (length (nodes inner)) (e_lin mod length (nodes inner)) b < t_lin - e_lin \<longrightarrow>
           \<not> cdist (length (nodes inner)) (calc_bucket P inner (first (nodes inner ! b)))
                 (e_lin mod length (nodes inner))
               < cdist (length (nodes inner)) (calc_bucket P inner (first (nodes inner ! b))) b"
  shows "\<exists>ns'. erase_node_loop P inner e_lin (e_lin mod length (nodes inner)) t_lin
                 = Some (inner\<lparr>nodes := ns'\<rparr>)
           \<and> length ns' = length (nodes inner)
           \<and> contiguous_from (calc_bucket P inner) ns'
           \<and> entries ns' = entries (nodes inner)"
  using assms
proof (induction "e_lin + cdist (length (nodes inner)) (e_lin mod length (nodes inner)) z - t_lin"
    arbitrary: inner e_lin t_lin rule: less_induct)
  case less
  note lay = less.prems(1)
  let ?ns = "nodes inner"
  let ?n = "length ?ns"
  let ?e = "e_lin mod ?n"
  let ?t = "t_lin mod ?n"
  let ?H = "calc_bucket P inner"
  have npos: "0 < ?n" using layout_okD(1) [OF lay] by linarith
  have e: "?e < ?n" and t: "?t < ?n" using npos by simp_all
  have z: "z < ?n" by (rule less.prems(4))
  have dz: "cdist ?n ?e z < ?n" using e z by (rule cdist_less)
  have tl: "t_lin < e_lin + ?n" "t_lin < 2 * ?n"
    using less.prems(3,6) dz by simp_all
  have el: "e_lin < 2 * ?n" using less.prems(2) tl(2) by simp
  have det: "cdist ?n ?e ?t = t_lin - e_lin"
    using less.prems(2) tl by (rule cdist_lin)
  have te: "?t \<noteq> ?e"
  proof
    assume "?t = ?e"
    then have "cdist ?n ?e ?t = 0" by simp
    then show False using det less.prems(2) by simp
  qed
  have H: "?H k < ?n" for k using lay by (rule calc_bucket_less)
  note unf = erase_node_loop_unfold [OF lay tl(2), of e_lin ?e]
  show ?case
  proof (cases "node_empty (?ns ! ?t)")
    case True
    have "contiguous_from ?H ?ns"
    proof (rule contiguous_final [OF less.prems(8) e t less.prems(7) True _ te])
      show "\<forall>k. ?H k < ?n" using H by simp
      show "\<forall>b < ?n. \<not> node_empty (?ns ! b) \<longrightarrow> cdist ?n ?e b < cdist ?n ?e ?t
          \<longrightarrow> \<not> cdist ?n (?H (first (?ns ! b))) ?e < cdist ?n (?H (first (?ns ! b))) b"
        using less.prems(9) det by simp
    qed
    moreover have "erase_node_loop P inner e_lin ?e t_lin = Some (inner\<lparr>nodes := ?ns\<rparr>)"
      using unf True by simp
    ultimately show ?thesis by blast
  next
    case False
    note occ = this
    let ?w = "?H (first (?ns ! ?t))"
    have w: "?w < ?n" by (rule H)
    have tz: "?t \<noteq> z" using occ less.prems(5) by auto
    have "cdist ?n ?e ?t \<noteq> cdist ?n ?e z" using cdist_inj [OF e t z] tz by blast
    then have lt: "t_lin < e_lin + cdist ?n ?e z" using det less.prems(3) by simp
    have dtz: "cdist ?n ?t z = cdist ?n ?e z - cdist ?n ?e ?t"
      using e t z det lt by (intro cdist_split) simp_all
    note mc = move_cond [OF less.prems(2) tl w]
    show ?thesis
    proof (cases "0 < cdist ?n ?e ?w \<and> cdist ?n ?e ?w \<le> cdist ?n ?e ?t")
      case True
      then have step: "erase_node_loop P inner e_lin ?e t_lin
          = erase_node_loop P inner e_lin ?e (t_lin + 1)"
        using unf occ mc by simp
      have btw: "\<forall>b < ?n. \<not> node_empty (?ns ! b) \<longrightarrow>
           cdist ?n ?e b < (t_lin + 1) - e_lin \<longrightarrow>
           \<not> cdist ?n (?H (first (?ns ! b))) ?e < cdist ?n (?H (first (?ns ! b))) b"
      proof (intro allI impI)
        fix b
        assume b: "b < ?n" "\<not> node_empty (?ns ! b)" "cdist ?n ?e b < (t_lin + 1) - e_lin"
        show "\<not> cdist ?n (?H (first (?ns ! b))) ?e < cdist ?n (?H (first (?ns ! b))) b"
        proof (cases "cdist ?n ?e b < t_lin - e_lin")
          case True
          then show ?thesis using less.prems(9) b by blast
        next
          case False
          then have "cdist ?n ?e b = cdist ?n ?e ?t" using b(3) det less.prems(2) by simp
          then have "b = ?t" using cdist_inj [OF e b(1) t] by simp
          then show ?thesis using cdist_stay [OF e t w] True by simp
        qed
      qed
      have "\<exists>ns'. erase_node_loop P inner e_lin ?e (t_lin + 1) = Some (inner\<lparr>nodes := ns'\<rparr>)
           \<and> length ns' = ?n \<and> contiguous_from ?H ns' \<and> entries ns' = entries ?ns"
      proof (rule less.hyps)
        show "e_lin + cdist ?n ?e z - (t_lin + 1) < e_lin + cdist ?n ?e z - t_lin"
          using lt by simp
        show "layout_ok P inner" by (rule lay)
        show "e_lin < t_lin + 1" using less.prems(2) by simp
        show "t_lin + 1 \<le> e_lin + cdist ?n ?e z" using lt by simp
        show "z < ?n" by (rule z)
        show "node_empty (?ns ! z)" by (rule less.prems(5))
        show "e_lin + cdist ?n ?e z < 2 * ?n" by (rule less.prems(6))
        show "node_empty (?ns ! ?e)" by (rule less.prems(7))
        show "contiguous_but ?e ?H ?ns" by (rule less.prems(8))
        show "\<forall>b < ?n. \<not> node_empty (?ns ! b) \<longrightarrow>
           cdist ?n ?e b < (t_lin + 1) - e_lin \<longrightarrow>
           \<not> cdist ?n (?H (first (?ns ! b))) ?e < cdist ?n (?H (first (?ns ! b))) b"
          by (rule btw)
      qed
      then show ?thesis using step by simp
    next
      case False
      let ?ns1 = "?ns[?e := ?ns ! ?t, ?t := MapNode_default]"
      let ?inner1 = "inner\<lparr>nodes := ?ns1\<rparr>"
      have step: "erase_node_loop P inner e_lin ?e t_lin
          = erase_node_loop P ?inner1 t_lin ?t (t_lin + 1)"
        using unf occ mc False by simp
      have len1: "length (nodes ?inner1) = ?n" by simp
      have mv: "cdist ?n ?w ?e < cdist ?n ?w ?t"
        using e t w te False by (rule cdist_move)
      have ze: "z \<noteq> ?e" using lt det less.prems(2) by (auto simp: cdist_def)
      have dtz1: "1 \<le> cdist ?n ?t z" using cdist_eq_0_iff [OF t z] tz by (cases "cdist ?n ?t z") auto
      have "\<exists>ns'. erase_node_loop P ?inner1 t_lin (t_lin mod length (nodes ?inner1)) (t_lin + 1)
                     = Some (?inner1\<lparr>nodes := ns'\<rparr>)
           \<and> length ns' = length (nodes ?inner1)
           \<and> contiguous_from (calc_bucket P ?inner1) ns'
           \<and> entries ns' = entries (nodes ?inner1)"
      proof (rule less.hyps)
        show "t_lin + cdist (length (nodes ?inner1)) (t_lin mod length (nodes ?inner1)) z - (t_lin + 1)
            < e_lin + cdist ?n ?e z - t_lin"
          using dtz det lt dtz1 by simp
        show "layout_ok P ?inner1" using lay by simp
        show "t_lin < t_lin + 1" by simp
        show "t_lin + 1 \<le> t_lin + cdist (length (nodes ?inner1)) (t_lin mod length (nodes ?inner1)) z"
          using dtz1 by simp
        show "z < length (nodes ?inner1)" using z by simp
        show "node_empty (nodes ?inner1 ! z)" using less.prems(5) ze tz by simp
        show "t_lin + cdist (length (nodes ?inner1)) (t_lin mod length (nodes ?inner1)) z
            < 2 * length (nodes ?inner1)"
          using dtz det lt less.prems(6) by simp
        show "node_empty (nodes ?inner1 ! (t_lin mod length (nodes ?inner1)))"
          using t by simp
        show "contiguous_but (t_lin mod length (nodes ?inner1)) (calc_bucket P ?inner1)
                (nodes ?inner1)"
          using contiguous_but_move [OF less.prems(8) e t te occ mv] by simp
        show "\<forall>b < length (nodes ?inner1). \<not> node_empty (nodes ?inner1 ! b) \<longrightarrow>
           cdist (length (nodes ?inner1)) (t_lin mod length (nodes ?inner1)) b < (t_lin + 1) - t_lin \<longrightarrow>
           \<not> cdist (length (nodes ?inner1)) (calc_bucket P ?inner1 (first (nodes ?inner1 ! b)))
                 (t_lin mod length (nodes ?inner1))
               < cdist (length (nodes ?inner1)) (calc_bucket P ?inner1 (first (nodes ?inner1 ! b))) b"
        proof (intro allI impI)
          fix b
          assume b: "b < length (nodes ?inner1)" "\<not> node_empty (nodes ?inner1 ! b)"
            "cdist (length (nodes ?inner1)) (t_lin mod length (nodes ?inner1)) b < (t_lin + 1) - t_lin"
          then have "cdist ?n ?t b = 0" by simp
          then have "b = ?t" using cdist_eq_0_iff [OF t, of b] b(1) by simp
          then have False using b(2) t by simp
          then show "\<not> cdist (length (nodes ?inner1)) (calc_bucket P ?inner1 (first (nodes ?inner1 ! b)))
                 (t_lin mod length (nodes ?inner1))
               < cdist (length (nodes ?inner1)) (calc_bucket P ?inner1 (first (nodes ?inner1 ! b))) b" ..
        qed
      qed
      then obtain ns' where ns': "erase_node_loop P ?inner1 t_lin ?t (t_lin + 1) = Some (inner\<lparr>nodes := ns'\<rparr>)"
        "length ns' = ?n" "contiguous_from ?H ns'" "entries ns' = entries ?ns1"
        by auto
      have "entries ?ns1 = entries ?ns"
        using e t te less.prems(7) by (rule entries_move)
      then show ?thesis using step ns' by auto
    qed
  qed
qed

subsection \<open>erase_node\<close>

lemma erase_node_correct:
  assumes "invariant P inner" "p < length (nodes inner)" "\<not> node_empty (nodes inner ! p)"
  obtains ns' where
    "erase_node P inner p
       = Some (inner\<lparr>nodes := ns', used_node_count := used_node_count inner - 1\<rparr>)"
    "length ns' = length (nodes inner)" "contiguous_from (calc_bucket P inner) ns'"
    "entries ns' = entries (nodes inner) - {#nodes inner ! p#}"
    "0 < used_node_count inner"
proof -
  note d = invariantD [OF assms(1)]
  note lay = layout_okD [OF d(1)]
  let ?ns = "nodes inner" and ?n = "length (nodes inner)"
  let ?nsc = "?ns[p := node_clear (?ns ! p)]"
  let ?innerc = "inner\<lparr>nodes := ?nsc, used_node_count := used_node_count inner - 1\<rparr>"
  have "nodes inner ! p \<in># entries ?ns" using assms(2,3) by (simp add: in_entries_iff)
  then have "0 < size (entries ?ns)" by (cases "entries ?ns") auto
  then have upos: "0 < used_node_count inner" using d(2) by simp
  have ul: "used_node_count inner < 2 ^ 32" using d(2,6) lay(2) by simp
  have us: "u32_sub (used_node_count inner) 1 = used_node_count inner - 1"
    using upos ul by (rule u32_sub_1)
  have p1: "u32_add p 1 = p + 1" using assms(2) lay(2) by (intro u32_small) simp
  have en: "erase_node P inner p = erase_node_loop P ?innerc p p (p + 1)"
    using us p1 by (simp add: erase_node_def Let_def)
  obtain z where z: "z < ?n" "node_empty (?ns ! z)"
    using exists_empty_bucket [OF d(6)] by blast
  have zp: "z \<noteq> p" using z(2) assms(3) by auto
  have pm: "p mod length (nodes ?innerc) = p" using assms(2) by simp
  have dpos: "1 \<le> cdist ?n p z"
    using cdist_eq_0_iff [OF assms(2) z(1)] zp by (cases "cdist ?n p z") auto
  have cl: "node_empty (node_clear x)" for x :: "('a, 'b) MapNode"
    by (simp add: node_clear_def node_empty_iff)
  have "\<exists>ns'. erase_node_loop P ?innerc p (p mod length (nodes ?innerc)) (p + 1)
                 = Some (?innerc\<lparr>nodes := ns'\<rparr>)
           \<and> length ns' = length (nodes ?innerc)
           \<and> contiguous_from (calc_bucket P ?innerc) ns'
           \<and> entries ns' = entries (nodes ?innerc)"
  proof (rule erase_node_loop_correct [where z = z])
    show "layout_ok P ?innerc" using d(1) by simp
    show "p < p + 1" by simp
    show "p + 1 \<le> p + cdist (length (nodes ?innerc)) (p mod length (nodes ?innerc)) z"
      using dpos pm by simp
    show "z < length (nodes ?innerc)" using z(1) by simp
    show "node_empty (nodes ?innerc ! z)" using z(2) zp by simp
    show "p + cdist (length (nodes ?innerc)) (p mod length (nodes ?innerc)) z
           < 2 * length (nodes ?innerc)"
      using cdist_less [OF assms(2) z(1)] assms(2) pm by simp
    show "node_empty (nodes ?innerc ! (p mod length (nodes ?innerc)))"
      using assms(2) cl pm by simp
    show "contiguous_but (p mod length (nodes ?innerc)) (calc_bucket P ?innerc) (nodes ?innerc)"
      using contiguous_but_start [OF d(4) assms(2)] pm by simp
    show "\<forall>b < length (nodes ?innerc). \<not> node_empty (nodes ?innerc ! b) \<longrightarrow>
           cdist (length (nodes ?innerc)) (p mod length (nodes ?innerc)) b < p + 1 - p \<longrightarrow>
           \<not> cdist (length (nodes ?innerc)) (calc_bucket P ?innerc (first (nodes ?innerc ! b)))
                 (p mod length (nodes ?innerc))
               < cdist (length (nodes ?innerc)) (calc_bucket P ?innerc (first (nodes ?innerc ! b))) b"
    proof (intro allI impI)
      fix b
      assume b: "b < length (nodes ?innerc)" "\<not> node_empty (nodes ?innerc ! b)"
        "cdist (length (nodes ?innerc)) (p mod length (nodes ?innerc)) b < p + 1 - p"
      then have "cdist ?n p b = 0" using pm by simp
      then have "b = p" using cdist_eq_0_iff [OF assms(2), of b] b(1) by simp
      then have False using b(2) assms(2) cl by simp
      then show "\<not> cdist (length (nodes ?innerc)) (calc_bucket P ?innerc (first (nodes ?innerc ! b)))
                 (p mod length (nodes ?innerc))
               < cdist (length (nodes ?innerc)) (calc_bucket P ?innerc (first (nodes ?innerc ! b))) b" ..
    qed
  qed
  then obtain ns' where ns':
    "erase_node_loop P ?innerc p p (p + 1) = Some (?innerc\<lparr>nodes := ns'\<rparr>)"
    "length ns' = length (nodes ?innerc)"
    "contiguous_from (calc_bucket P ?innerc) ns'" "entries ns' = entries (nodes ?innerc)"
    unfolding pm by blast
  show ?thesis
  proof (rule that [of ns'])
    show "erase_node P inner p
       = Some (inner\<lparr>nodes := ns', used_node_count := used_node_count inner - 1\<rparr>)"
      using en ns'(1) by simp
    show "length ns' = ?n" using ns'(2) by simp
    show "contiguous_from (calc_bucket P inner) ns'" using ns'(3) by simp
    show "entries ns' = entries ?ns - {#?ns ! p#}"
      using ns'(4) assms(2,3) cl by (simp add: entries_update)
    show "0 < used_node_count inner" by (rule upos)
  qed
qed

subsection \<open>try_shrink and erase\<close>

lemma keys_distinct_diff:
  assumes "keys_distinct ns" "entries ns' = entries ns - M"
  shows "keys_distinct ns'"
proof -
  have "image_mset first (entries ns') \<subseteq># image_mset first (entries ns)"
    unfolding assms(2) by (intro image_mset_subseteq_mono) simp
  then have "count (image_mset first (entries ns')) k \<le> count (image_mset first (entries ns)) k"
    for k by (rule mset_subset_eq_count)
  then show ?thesis using assms(1) unfolding keys_distinct_count by (meson order_trans)
qed

lemma try_shrink_correct:
  assumes "invariant P inner"
  obtains inner' where "try_shrink P (Some inner) = Some (Some inner')" "invariant P inner'"
    "entries (nodes inner') = entries (nodes inner)"
    "used_node_count inner' = used_node_count inner"
    "used_node_count inner * 5 \<le> bucket_count_mask inner * 3
       \<Longrightarrow> used_node_count inner' * 5 \<le> bucket_count_mask inner' * 3"
    "\<not> (used_node_count inner * 10 < bucket_count_mask inner \<and> bucket_count_mask inner > 7)
       \<Longrightarrow> inner' = inner"
    "used_node_count inner * 10 < bucket_count_mask inner \<and> bucket_count_mask inner > 7
       \<Longrightarrow> least_pow2_above ((used_node_count inner + 1) * 5 div 3 + 1)
             (bucket_count_mask inner' + 1)
           \<and> bucket_count_mask inner' < bucket_count_mask inner"
proof -
  note d = invariantD [OF assms]
  note lay = layout_okD [OF d(1)]
  let ?u = "used_node_count inner" and ?m = "bucket_count_mask inner"
  let ?x = "(?u + 1) * 5 div 3 + 1"
  have ub: "?u * 10 < 2 ^ 32" using d(3) lay(2,3) by simp
  have u10: "u32_mul ?u 10 = ?u * 10" using ub by (rule u32_small)
  show ?thesis
  proof (cases "?u * 10 < ?m \<and> ?m > 7")
    case False
    then have "try_shrink P (Some inner) = Some (Some inner)"
      by (auto simp: try_shrink_def u10)
    then show ?thesis using that [of inner] assms False by simp
  next
    case True
    have x31: "?x < 2 ^ 31" using ub by simp
    have xe: "u32_add (u32_mul (u32_add ?u 1) 5 div 3) 1 = ?x"
    proof -
      have "u32_add ?u 1 = ?u + 1" using ub by (intro u32_small) simp
      moreover have "u32_mul (?u + 1) 5 = (?u + 1) * 5" using ub by (intro u32_small) simp
      moreover have "u32_add ((?u + 1) * 5 div 3) 1 = ?x" using ub by (intro u32_small) simp
      ultimately show ?thesis by simp
    qed
    obtain j where j: "3 \<le> j" "j \<le> 31" "normalize ?x = Some (2 ^ j)" "?x < 2 ^ j"
      "\<And>i. ?x < 2 ^ i \<Longrightarrow> 3 \<le> i \<Longrightarrow> j \<le> i" "8 \<le> ?x \<Longrightarrow> 2 ^ j \<le> 2 * ?x"
      using normalize_pow [OF x31] by blast
    obtain r where r: "normalize ?x = Some r" "least_pow2_above ?x r" "8 \<le> ?x \<Longrightarrow> r \<le> 2 * ?x"
      "?x < 8 \<Longrightarrow> r = 8"
      using normalize_least_pow2_above [OF x31] by blast
    have rj: "r = 2 ^ j" using r(1) j(3) by simp
    have m1: "?m + 1 = length (nodes inner)" using lay(1,3) by simp
    have small: "r < ?m + 1"
    proof (cases "?x < 8")
      case True
      then show ?thesis using r(4) \<open>?u * 10 < ?m \<and> ?m > 7\<close> by simp
    next
      case False
      then have "r \<le> 2 * ?x" using r(3) by simp
      moreover have "2 * ?x < ?m + 1" using \<open>?u * 10 < ?m \<and> ?m > 7\<close> by arith
      ultimately show ?thesis by simp
    qed
    have mx: "2 ^ j \<le> max_bucket_count P" using small rj m1 lay(4) by simp
    have rm: "size (entries (nodes inner)) < 2 ^ j" using j(4) d(2) by simp
    from resize_correct [OF d(1) j(1) mx rm] obtain ns' where ns':
      "resize P (Some inner) (2 ^ j)
         = Some (Some \<lparr>used_node_count = ?u, bucket_count_mask = 2 ^ j - 1, nodes = ns'\<rparr>)"
      "length ns' = 2 ^ j"
      "layout_ok P \<lparr>used_node_count = ?u, bucket_count_mask = 2 ^ j - 1, nodes = ns'\<rparr>"
      "contiguous_from
         (calc_bucket P \<lparr>used_node_count = ?u, bucket_count_mask = 2 ^ j - 1, nodes = ns'\<rparr>) ns'"
      "entries ns' = entries (nodes inner)"
      by blast
    let ?inner' = "\<lparr>used_node_count = ?u, bucket_count_mask = 2 ^ j - 1, nodes = ns'\<rparr>"
    have 1: "try_shrink P (Some inner) = Some (Some ?inner')"
      using True ns'(1) j(3) xe by (simp add: try_shrink_def u10)
    have p1: "(1::nat) \<le> 2 ^ j" by simp
    have ld: "used_node_count ?inner' * 5 \<le> bucket_count_mask ?inner' * 3"
      using j(4) p1 by simp
    have 2: "invariant P ?inner'"
      using ns'(3,4,5) d(2) ld d(5) keys_distinct_cong [OF ns'(5)]
      by (intro invariantI) simp_all
    have "(2::nat) ^ j - 1 < ?m" using small rj p1 by linarith
    moreover have "(2::nat) ^ j - 1 + 1 = 2 ^ j" using p1 by linarith
    ultimately have 3: "least_pow2_above ?x (bucket_count_mask ?inner' + 1)
           \<and> bucket_count_mask ?inner' < ?m"
      using r(2) rj by (simp del: One_nat_def)
    show ?thesis
    proof (rule that [of ?inner'])
      show "try_shrink P (Some inner) = Some (Some ?inner')" by (rule 1)
      show "invariant P ?inner'" by (rule 2)
      show "entries (nodes ?inner') = entries (nodes inner)" using ns'(5) by simp
      show "used_node_count ?inner' = ?u" by simp
      show "used_node_count ?inner' * 5 \<le> bucket_count_mask ?inner' * 3" by (rule ld)
      show "?inner' = inner" if "\<not> (?u * 10 < ?m \<and> ?m > 7)" using that True by simp
      show "least_pow2_above ?x (bucket_count_mask ?inner' + 1)
           \<and> bucket_count_mask ?inner' < ?m" by (rule 3)
    qed
  qed
qed

lemma erase_absent:
  assumes "wf_table P t" "key \<notin> table_keys t"
  shows "erase P t key = Some (t, 0)"
  using find_absent [OF assms] by (simp add: erase_def Iterator_eq_def)

lemma erase_present:
  assumes "invariant P inner" "key \<in> table_keys (Some inner)"
  obtains inner' x where "x \<in># entries (nodes inner)" "first x = key"
    "erase P (Some inner) key = Some (Some inner', 1)" "invariant P inner'"
    "entries (nodes inner') = entries (nodes inner) - {#x#}"
    "used_node_count inner' = used_node_count inner - 1" "0 < used_node_count inner"
    "used_node_count inner' * 5 \<le> bucket_count_mask inner' * 3"
    "\<not> (used_node_count inner' * 10 < bucket_count_mask inner \<and> bucket_count_mask inner > 7)
       \<Longrightarrow> bucket_count_mask inner' = bucket_count_mask inner"
    "used_node_count inner' * 10 < bucket_count_mask inner \<and> bucket_count_mask inner > 7
       \<Longrightarrow> least_pow2_above ((used_node_count inner' + 1) * 5 div 3 + 1)
             (bucket_count_mask inner' + 1)
           \<and> bucket_count_mask inner' < bucket_count_mask inner"
proof -
  note d = invariantD [OF assms(1)]
  from assms(2) obtain p where p: "key \<noteq> 0" "p < length (nodes inner)"
    "first (nodes inner ! p) = key"
    unfolding in_table_keys_iff by blast
  let ?x = "nodes inner ! p"
  have occ: "\<not> node_empty ?x" using p(1,3) by (simp add: node_empty_iff)
  have xin: "?x \<in># entries (nodes inner)" using p(2) occ by (simp add: in_entries_iff)
  have f: "find P (Some inner) key = Some (Iterator_new (Some p) (Some inner))"
    using assms(1) p(2,3,1) by (rule find_present)
  obtain ns' where ns':
    "erase_node P inner p
       = Some (inner\<lparr>nodes := ns', used_node_count := used_node_count inner - 1\<rparr>)"
    "length ns' = length (nodes inner)" "contiguous_from (calc_bucket P inner) ns'"
    "entries ns' = entries (nodes inner) - {#?x#}"
    "0 < used_node_count inner"
    using erase_node_correct [OF assms(1) p(2) occ] by blast
  let ?inner1 = "inner\<lparr>nodes := ns', used_node_count := used_node_count inner - 1\<rparr>"
  have sz: "size (entries ns') = size (entries (nodes inner)) - 1"
    using ns'(4) xin by (simp add: size_Diff_singleton)
  have inv1: "invariant P ?inner1"
  proof (rule invariantI)
    show "layout_ok P ?inner1" using d(1) ns'(2) by simp
    show "used_node_count ?inner1 = size (entries (nodes ?inner1))" using sz d(2) by simp
    show "used_node_count ?inner1 * 5 \<le> bucket_count_mask ?inner1 * 3 + 5" using d(3) by simp
    show "contiguous_from (calc_bucket P ?inner1) (nodes ?inner1)" using ns'(3) by simp
    show "keys_distinct (nodes ?inner1)" using keys_distinct_diff [OF d(5) ns'(4)] by simp
  qed
  have ld1: "used_node_count ?inner1 * 5 \<le> bucket_count_mask ?inner1 * 3"
    using d(3) ns'(5) by simp
  obtain inner' where i': "try_shrink P (Some ?inner1) = Some (Some inner')" "invariant P inner'"
    "entries (nodes inner') = entries (nodes ?inner1)"
    "used_node_count inner' = used_node_count ?inner1"
    "used_node_count ?inner1 * 5 \<le> bucket_count_mask ?inner1 * 3
       \<Longrightarrow> used_node_count inner' * 5 \<le> bucket_count_mask inner' * 3"
    "\<not> (used_node_count ?inner1 * 10 < bucket_count_mask ?inner1 \<and> bucket_count_mask ?inner1 > 7)
       \<Longrightarrow> inner' = ?inner1"
    "used_node_count ?inner1 * 10 < bucket_count_mask ?inner1 \<and> bucket_count_mask ?inner1 > 7
       \<Longrightarrow> least_pow2_above ((used_node_count ?inner1 + 1) * 5 div 3 + 1)
             (bucket_count_mask inner' + 1)
           \<and> bucket_count_mask inner' < bucket_count_mask ?inner1"
    using try_shrink_correct [OF inv1] by blast
  have er: "erase P (Some inner) key = Some (Some inner', 1)"
    using f ns'(1) i'(1)
    by (simp add: erase_def erase_it_def Iterator_eq_def Iterator_new_def end_iterator_def)
  show ?thesis
  proof (rule that [of ?x inner'])
    show "?x \<in># entries (nodes inner)" by (rule xin)
    show "first ?x = key" by (rule p(3))
    show "erase P (Some inner) key = Some (Some inner', 1)" by (rule er)
    show "invariant P inner'" by (rule i'(2))
    show "entries (nodes inner') = entries (nodes inner) - {#?x#}" using i'(3) ns'(4) by simp
    show u: "used_node_count inner' = used_node_count inner - 1" using i'(4) by simp
    show "0 < used_node_count inner" by (rule ns'(5))
    show "used_node_count inner' * 5 \<le> bucket_count_mask inner' * 3" using i'(5) ld1 by simp
    show "bucket_count_mask inner' = bucket_count_mask inner"
      if "\<not> (used_node_count inner' * 10 < bucket_count_mask inner \<and> bucket_count_mask inner > 7)"
      using i'(6) that u by simp
    show "least_pow2_above ((used_node_count inner' + 1) * 5 div 3 + 1)
             (bucket_count_mask inner' + 1)
           \<and> bucket_count_mask inner' < bucket_count_mask inner"
      if "used_node_count inner' * 10 < bucket_count_mask inner \<and> bucket_count_mask inner > 7"
      using i'(7) that u by simp
  qed
qed

section \<open>Operations on tables\<close>

lemma wf_table_Some [simp]: "wf_table P (Some inner) = invariant P inner"
  by (simp add: wf_table_def)

lemma wf_table_None [simp]: "wf_table P None"
  by (simp add: wf_table_def)

lemma table_entries_simps [simp]:
  "table_entries None = {#}" "table_entries (Some inner) = entries (nodes inner)"
  by (simp_all add: table_entries_def)

lemma size_table_entries: "wf_table P t \<Longrightarrow> size_table t = size (table_entries t)"
  by (cases t) (simp_all add: size_table_def invariantD(2))

lemma table_keys_image: "table_keys t = first ` set_mset (table_entries t)"
  by (simp add: table_keys_def)

lemma grow_ok_bound:
  assumes "wf_table P t" "3 \<le> j" "2 ^ j \<le> max_bucket_count P"
    "5 * size_table t \<le> 3 * (2 ^ j - 1)"
  shows "grow_ok P t"
proof (cases t)
  case None
  have "(2::nat) ^ 3 \<le> 2 ^ j" using assms(2) by (intro power_increasing) auto
  then show ?thesis using assms(3) None by (simp add: grow_ok_def)
next
  case (Some inner)
  have inv: "invariant P inner" using assms(1) Some by simp
  from invariantD(1) [OF inv] obtain i where i: "bucket_count_mask inner = 2 ^ i - 1"
    unfolding layout_ok_def by blast
  have u: "5 * used_node_count inner \<le> 3 * (2 ^ j - 1)"
    using assms(4) Some by (simp add: size_table_def)
  have "2 * bucket_count_mask inner + 2 \<le> max_bucket_count P"
    if g: "used_node_count inner * 5 > bucket_count_mask inner * 3"
  proof -
    have "3 * ((2::nat) ^ i - 1) < 3 * (2 ^ j - 1)" using g u i by simp
    then have lt: "(2::nat) ^ i - 1 < 2 ^ j - 1" by simp
    have "i < j"
    proof (rule ccontr)
      assume "\<not> i < j"
      then have "j \<le> i" by simp
      then have "(2::nat) ^ j \<le> 2 ^ i" by (intro power_increasing) auto
      then show False using lt by arith
    qed
    then have "Suc i \<le> j" by simp
    then have "(2::nat) ^ Suc i \<le> 2 ^ j" by (intro power_increasing) auto
    then have le: "2 * (2::nat) ^ i \<le> 2 ^ j" by simp
    have "(1::nat) \<le> 2 ^ i" by simp
    then have "2 * ((2::nat) ^ i - 1) + 2 = 2 * 2 ^ i" by arith
    then show ?thesis using le assms(3) unfolding i by simp
  qed
  then show ?thesis using Some by (simp add: grow_ok_def)
qed

lemma entries_key_unique:
  assumes "keys_distinct ns" "x \<in># entries ns" "y \<in># entries ns" "first x = first y"
  shows "x = y"
proof -
  have x: "x \<in> set ns" "\<not> node_empty x" and y: "y \<in> set ns"
    using assms(2,3) by (simp_all add: in_entries_iff)
  obtain i where i: "i < length ns" "ns ! i = x"
    using x(1) by (metis in_set_conv_nth)
  note i = i x(2)
  obtain j where j: "j < length ns" "ns ! j = y"
    using y by (metis in_set_conv_nth)
  have 1: "\<not> node_empty (ns ! i)" using i(2,3) by simp
  have 2: "first (ns ! i) = first (ns ! j)" using i(2) j(2) assms(4) by simp
  have "i = j" using assms(1) i(1) j(1) 1 2 by (rule keys_distinctD)
  then show ?thesis using i(2) j(2) by simp
qed

lemma keys_remove:
  assumes "keys_distinct ns" "x \<in># entries ns"
  shows "first ` set_mset (entries ns - {#x#}) = first ` set_mset (entries ns) - {first x}"
proof -
  let ?E = "entries ns"
  have E: "?E = add_mset x (?E - {#x#})" using assms(2) by simp
  have "count (image_mset first ?E) (first x) \<le> 1"
    using assms(1) by (simp add: keys_distinct_count)
  then have "count (image_mset first (add_mset x (?E - {#x#}))) (first x) \<le> 1"
    using E by simp
  then have "count (image_mset first (?E - {#x#})) (first x) = 0" by simp
  then have nx: "first x \<notin> first ` set_mset (?E - {#x#})"
    by (metis count_eq_zero_iff set_image_mset)
  have "set_mset ?E = insert x (set_mset (?E - {#x#}))"
    by (subst E) simp
  then show ?thesis using nx by auto
qed

lemma emplace_table:
  assumes "wf_table P t" "grow_ok P t" "key \<noteq> 0"
  obtains t' it where
    "emplace P t key args = Some (t', it, key \<notin> table_keys t)"
    "wf_table P t'" "t' \<noteq> None"
    "table_entries t'
       = (if key \<in> table_keys t then table_entries t
          else add_mset \<lparr>first = key, second = Some args\<rparr> (table_entries t))"
    "table_keys t' = insert key (table_keys t)"
    "size_table t' = size_table t + (if key \<in> table_keys t then 0 else 1)"
proof -
  obtain inner' p where e:
    "emplace P t key args
       = Some (Some inner', Iterator_new (Some p) (Some inner'), key \<notin> table_keys t)"
    "invariant P inner'"
    "entries (nodes inner')
       = (if key \<in> table_keys t then table_entries t
          else add_mset \<lparr>first = key, second = Some args\<rparr> (table_entries t))"
    using emplace_correct [OF assms] by blast
  have k: "table_keys (Some inner') = insert key (table_keys t)"
    using e(3) by (auto simp: table_keys_image)
  have s: "size_table (Some inner') = size_table t + (if key \<in> table_keys t then 0 else 1)"
    using size_table_entries [OF assms(1)] size_table_entries [of P "Some inner'"] e(2,3)
    by simp
  show ?thesis using that [OF e(1)] e(2,3) k s by simp
qed

lemma erase_table:
  assumes "wf_table P t"
  obtains t' where
    "erase P t key = Some (t', if key \<in> table_keys t then 1 else 0)"
    "wf_table P t'" "table_keys t' = table_keys t - {key}"
    "size_table t' = size_table t - (if key \<in> table_keys t then 1 else 0)"
    "key \<notin> table_keys t \<Longrightarrow> t' = t" "key \<in> table_keys t \<Longrightarrow> load_le t'"
proof (cases "key \<in> table_keys t")
  case False
  show ?thesis
  proof (rule that [of t])
    show "erase P t key = Some (t, if key \<in> table_keys t then 1 else 0)"
      using erase_absent [OF assms False] False by simp
    show "wf_table P t" by (rule assms)
    show "table_keys t = table_keys t - {key}" using False by simp
    show "size_table t = size_table t - (if key \<in> table_keys t then 1 else 0)"
      using False by simp
    show "t = t" ..
    show "load_le t" if "key \<in> table_keys t" using that False by simp
  qed
next
  case True
  then obtain inner where t: "t = Some inner" by (cases t) simp_all
  have inv: "invariant P inner" using assms t by simp
  obtain inner' x where e: "x \<in># entries (nodes inner)" "first x = key"
    "erase P (Some inner) key = Some (Some inner', 1)" "invariant P inner'"
    "entries (nodes inner') = entries (nodes inner) - {#x#}"
    "used_node_count inner' = used_node_count inner - 1"
    "used_node_count inner' * 5 \<le> bucket_count_mask inner' * 3"
    using erase_present [OF inv True [unfolded t]] by blast
  have "first ` set_mset (entries (nodes inner'))
      = first ` set_mset (entries (nodes inner)) - {key}"
    unfolding e(5) using keys_remove [OF invariantD(5) [OF inv] e(1)] e(2) by simp
  then have k: "table_keys (Some inner') = table_keys t - {key}"
    unfolding t table_keys_image table_entries_simps .
  show ?thesis
  proof (rule that [of "Some inner'"])
    show "erase P t key = Some (Some inner', if key \<in> table_keys t then 1 else 0)"
      using e(3) t True by simp
    show "wf_table P (Some inner')" using e(4) by simp
    show "table_keys (Some inner') = table_keys t - {key}" by (rule k)
    show "size_table (Some inner') = size_table t - (if key \<in> table_keys t then 1 else 0)"
      using e(6) t True by (simp add: size_table_def)
    show "Some inner' = t" if "key \<notin> table_keys t" using that True by simp
    show "load_le (Some inner')" using e(7) by (simp add: load_le_def)
  qed
qed

section \<open>Sequences of operations\<close>

lemma emplace_all_correct:
  assumes "wf_table P t" "\<forall>(k, v) \<in> set kvs. k \<noteq> 0"
    "3 \<le> j" "2 ^ j \<le> max_bucket_count P"
    "5 * (size_table t + card (fst ` set kvs - table_keys t)) \<le> 3 * (2 ^ j - 1)"
  shows "\<exists>t'. emplace_all P t kvs = Some t' \<and> wf_table P t'
           \<and> size_table t' = size_table t + card (fst ` set kvs - table_keys t)
           \<and> set_mset (table_entries t')
               = set_mset (table_entries t)
                 \<union> {\<lparr>first = k, second = Some v\<rparr> | k v. k \<notin> table_keys t \<and> map_of kvs k = Some v}"
  using assms
proof (induction kvs arbitrary: t)
  case Nil
  then show ?case by simp
next
  case (Cons kv kvs)
  obtain key args where kv: "kv = (key, args)" by (cases kv)
  have key: "key \<noteq> 0" using Cons.prems(2) kv by simp
  let ?new = "fst ` set (kv # kvs) - table_keys t"
  have fin: "finite ?new" by simp
  have "5 * size_table t \<le> 3 * (2 ^ j - 1)" using Cons.prems(5) by simp
  with Cons.prems(1,3,4) have g: "grow_ok P t" by (rule grow_ok_bound)
  obtain t1 it where e: "emplace P t key args = Some (t1, it, key \<notin> table_keys t)"
    "wf_table P t1"
    "table_entries t1
       = (if key \<in> table_keys t then table_entries t
          else add_mset \<lparr>first = key, second = Some args\<rparr> (table_entries t))"
    "table_keys t1 = insert key (table_keys t)"
    "size_table t1 = size_table t + (if key \<in> table_keys t then 0 else 1)"
    using emplace_table [OF Cons.prems(1) g key] by blast
  let ?new1 = "fst ` set kvs - table_keys t1"
  have new1: "?new1 = ?new - {key}" using e(4) kv by auto
  have cnt: "size_table t1 + card ?new1 = size_table t + card ?new"
  proof (cases "key \<in> table_keys t")
    case True
    then have "?new1 = ?new" using new1 by auto
    then show ?thesis using e(5) True by simp
  next
    case False
    then have "key \<in> ?new" using kv by simp
    then have "card ?new = Suc (card (?new - {key}))"
      using fin by (metis card_Suc_Diff1)
    then show ?thesis using e(5) False new1 by simp
  qed
  have "\<exists>t'. emplace_all P t1 kvs = Some t' \<and> wf_table P t'
           \<and> size_table t' = size_table t1 + card ?new1
           \<and> set_mset (table_entries t')
               = set_mset (table_entries t1)
                 \<union> {\<lparr>first = k, second = Some v\<rparr> | k v. k \<notin> table_keys t1 \<and> map_of kvs k = Some v}"
  proof (rule Cons.IH)
    show "wf_table P t1" by (rule e(2))
    show "\<forall>(k, v) \<in> set kvs. k \<noteq> 0" using Cons.prems(2) by simp
    show "3 \<le> j" by (rule Cons.prems(3))
    show "2 ^ j \<le> max_bucket_count P" by (rule Cons.prems(4))
    show "5 * (size_table t1 + card ?new1) \<le> 3 * (2 ^ j - 1)"
      using Cons.prems(5) cnt by simp
  qed
  then obtain t' where t': "emplace_all P t1 kvs = Some t'" "wf_table P t'"
    "size_table t' = size_table t1 + card ?new1"
    "set_mset (table_entries t')
       = set_mset (table_entries t1)
         \<union> {\<lparr>first = k, second = Some v\<rparr> | k v. k \<notin> table_keys t1 \<and> map_of kvs k = Some v}"
    by blast
  have 1: "emplace_all P t (kv # kvs) = Some t'" using e(1) t'(1) kv by simp
  have 2: "set_mset (table_entries t1)
         \<union> {\<lparr>first = k, second = Some v\<rparr> | k v. k \<notin> table_keys t1 \<and> map_of kvs k = Some v}
      = set_mset (table_entries t)
         \<union> {\<lparr>first = k, second = Some v\<rparr> | k v.
              k \<notin> table_keys t \<and> map_of (kv # kvs) k = Some v}"
    (is "?L = ?R")
  proof (cases "key \<in> table_keys t")
    case True
    then have te: "table_entries t1 = table_entries t" and tk: "table_keys t1 = table_keys t"
      using e(3,4) by auto
    have "(k \<notin> table_keys t1 \<and> map_of kvs k = Some v)
        = (k \<notin> table_keys t \<and> map_of (kv # kvs) k = Some v)" for k v
    proof (cases "k = key")
      case True
      then show ?thesis using \<open>key \<in> table_keys t\<close> tk by simp
    next
      case False
      then show ?thesis using tk kv by simp
    qed
    then show ?thesis unfolding te by simp
  next
    case False
    then have E: "set_mset (table_entries t1)
        = insert \<lparr>first = key, second = Some args\<rparr> (set_mset (table_entries t))"
      using e(3) by simp
    show ?thesis
    proof (intro set_eqI iffI)
      fix x
      assume "x \<in> ?L"
      then consider "x = \<lparr>first = key, second = Some args\<rparr>" | "x \<in> set_mset (table_entries t)"
        | k v where "x = \<lparr>first = k, second = Some v\<rparr>" "k \<notin> table_keys t1" "map_of kvs k = Some v"
        using E by auto
      then show "x \<in> ?R"
      proof cases
        case 1
        then show ?thesis using False kv by auto
      next
        case 2
        then show ?thesis by simp
      next
        case 3
        then have "k \<noteq> key" "k \<notin> table_keys t" using e(4) by auto
        then show ?thesis using 3 kv by auto
      qed
    next
      fix x
      assume "x \<in> ?R"
      then consider "x \<in> set_mset (table_entries t)"
        | k v where "x = \<lparr>first = k, second = Some v\<rparr>" "k \<notin> table_keys t"
            "map_of (kv # kvs) k = Some v"
        by auto
      then show "x \<in> ?L"
      proof cases
        case 1
        then show ?thesis using E by simp
      next
        case 2
        show ?thesis
        proof (cases "k = key")
          case True
          then have "v = args" using 2(3) kv by simp
          then show ?thesis using 2(1) True E by simp
        next
          case False
          then have "map_of kvs k = Some v" "k \<notin> table_keys t1" using 2(2,3) kv e(4) by auto
          then show ?thesis using 2(1) by auto
        qed
      qed
    qed
  qed
  show ?case using 1 t'(2,3,4) cnt 2 by simp
qed

section \<open>Lookups\<close>

lemma lookup_present:
  assumes "wf_table P t" "x \<in># table_entries t"
  shows "lookup P t (first x) = Some (Some x)"
proof -
  from assms(2) obtain inner where t: "t = Some inner" by (cases t) auto
  have inv: "invariant P inner" using assms(1) t by simp
  have x: "x \<in># entries (nodes inner)" using assms(2) t by simp
  then have "first x \<in> table_keys t" unfolding t table_keys_image by simp
  then obtain p where p: "first x \<noteq> 0" "p < length (nodes inner)"
    "first (nodes inner ! p) = first x"
    unfolding t in_table_keys_iff by blast
  have np: "nodes inner ! p \<in># entries (nodes inner)"
    using p by (simp add: in_entries_iff node_empty_iff)
  have "nodes inner ! p = x"
    using invariantD(5) [OF inv] np x p(3) by (rule entries_key_unique)
  moreover have "find P t (first x) = Some (Iterator_new (Some p) (Some inner))"
    unfolding t using inv p(2,3,1) by (rule find_present)
  ultimately show ?thesis by (simp add: lookup_def deref_def Iterator_new_def t)
qed

lemma lookup_absent:
  assumes "wf_table P t" "key \<notin> table_keys t"
  shows "lookup P t key = Some None"
  using find_absent [OF assms]
  by (simp add: lookup_def deref_def end_iterator_def Iterator_new_def split: option.splits)

lemma lookup_cong:
  assumes "wf_table P t" "wf_table P t'" "table_entries t = table_entries t'"
  shows "lookup P t key = lookup P t' key"
proof (cases "key \<in> table_keys t")
  case True
  then obtain x where x: "x \<in># table_entries t" "first x = key"
    unfolding table_keys_image by blast
  then show ?thesis
    using lookup_present [OF assms(1) x(1)] lookup_present [OF assms(2), of x] assms(3) by simp
next
  case False
  then have "key \<notin> table_keys t'" using assms(3) by (simp add: table_keys_image)
  then show ?thesis using lookup_absent [OF assms(1) False] lookup_absent [OF assms(2)] by simp
qed

text \<open>
  C1. For every finite sequence of insertions of non-sentinel keys (repeats allowed) via
  \<open>emplace\<close> into an initially empty table, whose number \<open>N\<close> of distinct keys satisfies
  \<open>5 * N \<le> 3 * (2 ^ j - 1)\<close> for a bucket count \<open>2 ^ j\<close> with \<open>3 \<le> j\<close> that
  \<^verbatim>\<open>allocate_nodes\<close> accepts (\<open>2 ^ j \<le> max_bucket_count\<close>), all insertions return;
  afterwards \<open>find k\<close> returns, for each inserted key \<open>k\<close>, the entry with the value that
  was inserted first for \<open>k\<close> (\<open>emplace\<close> does not overwrite), and \<open>size()\<close> equals the
  number of distinct keys inserted.
\<close>

theorem emplace_all_first_value:
  assumes "\<forall>(k, v) \<in> set kvs. k \<noteq> 0" "3 \<le> j" "2 ^ j \<le> max_bucket_count P"
    "5 * card (fst ` set kvs) \<le> 3 * (2 ^ j - 1)"
  shows "\<exists>t. emplace_all P None kvs = Some t
           \<and> size_table t = card (fst ` set kvs)
           \<and> (\<forall>k \<in> fst ` set kvs.
                 lookup P t k = Some (Some \<lparr>first = k, second = map_of kvs k\<rparr>))"
proof -
  let ?N = "None :: ('a, 'b) FlatHashTable"
  have wfN: "wf_table P ?N" by simp
  have cap: "5 * (size_table ?N + card (fst ` set kvs - table_keys ?N)) \<le> 3 * (2 ^ j - 1)"
    using assms(4) by (simp add: size_table_def table_keys_image)
  have "\<exists>t'. emplace_all P ?N kvs = Some t' \<and> wf_table P t'
           \<and> size_table t' = size_table ?N + card (fst ` set kvs - table_keys ?N)
           \<and> set_mset (table_entries t')
               = set_mset (table_entries ?N)
                 \<union> {\<lparr>first = k, second = Some v\<rparr> | k v.
                      k \<notin> table_keys ?N \<and> map_of kvs k = Some v}"
    using wfN assms(1,2,3) cap by (rule emplace_all_correct)
  then obtain t where t: "emplace_all P None kvs = Some t" "wf_table P t"
    "size_table t = card (fst ` set kvs)"
    "set_mset (table_entries t) = {\<lparr>first = k, second = Some v\<rparr> | k v. map_of kvs k = Some v}"
    by (auto simp: size_table_def table_keys_image)
  have "lookup P t k = Some (Some \<lparr>first = k, second = map_of kvs k\<rparr>)"
    if "k \<in> fst ` set kvs" for k
  proof -
    from that obtain v where v: "map_of kvs k = Some v"
      by (metis map_of_eq_None_iff not_Some_eq)
    then have "\<lparr>first = k, second = Some v\<rparr> \<in># table_entries t" using t(4) by auto
    then show ?thesis using lookup_present [OF t(2)] v by fastforce
  qed
  then show ?thesis using t(1,3) by blast
qed

lemma max_bucket_count_example: "max_bucket_count example_params = 134217727"
  by (simp add: max_bucket_count_def example_params_def OFFSET_def)

theorem emplace_all_first_value_witness:
  "\<exists>t. emplace_all example_params None [(1, 10), (2, 20), (1, 30 :: nat)] = Some t
       \<and> size_table t = 2
       \<and> lookup example_params t 1 = Some (Some \<lparr>first = 1, second = Some 10\<rparr>)
       \<and> lookup example_params t 2 = Some (Some \<lparr>first = 2, second = Some 20\<rparr>)"
proof -
  let ?kvs = "[(1, 10), (2, 20), (1, 30)] :: (nat \<times> nat) list"
  have c: "card (fst ` set ?kvs) = 2" by (simp add: card_insert_if)
  have h1: "\<forall>(k, v) \<in> set ?kvs. k \<noteq> 0" by simp
  have h2: "(3::nat) \<le> 3" by simp
  have h3: "2 ^ 3 \<le> max_bucket_count example_params" by (simp add: max_bucket_count_example)
  have h4: "5 * card (fst ` set ?kvs) \<le> 3 * (2 ^ 3 - 1)" unfolding c by simp
  from emplace_all_first_value [OF h1 h2 h3 h4] obtain t where
    t: "emplace_all example_params None ?kvs = Some t" "size_table t = card (fst ` set ?kvs)"
    and l: "\<forall>k \<in> fst ` set ?kvs.
          lookup example_params t k = Some (Some \<lparr>first = k, second = map_of ?kvs k\<rparr>)"
    by blast
  have l1: "lookup example_params t 1 = Some (Some \<lparr>first = 1, second = Some 10\<rparr>)"
    using l by simp
  have l2: "lookup example_params t 2 = Some (Some \<lparr>first = 2, second = Some 20\<rparr>)"
    using l by simp
  have s: "size_table t = 2" using t(2) c by simp
  show ?thesis
  proof (intro exI [of _ t] conjI)
    show "emplace_all example_params None ?kvs = Some t" by (rule t(1))
    show "size_table t = 2" by (rule s)
    show "lookup example_params t 1 = Some (Some \<lparr>first = 1, second = Some 10\<rparr>)"
      by (rule l1)
    show "lookup example_params t 2 = Some (Some \<lparr>first = 2, second = Some 20\<rparr>)"
      by (rule l2)
  qed
qed

text \<open>
  The claim as stated, with the last-inserted value, fails when a key is inserted twice:
  after \<open>emplace 1 10\<close> and \<open>emplace 1 20\<close>, the lookup of 1 gives the value 10.
\<close>

lemmas eval_defs =
  emplace_def try_grow_def resize_def allocate_nodes_def max_bucket_count_def OFFSET_def CHECK_def
  u32_sub_def u32_add_def u32_mul_def is_key_empty_def calc_bucket_def randomize_hash_def Let_def
  MapNode_default_def node_empty_def node_emplace_def node_move_def node_clear_def
  Iterator_new_def end_iterator_def Iterator_eq_def bucket_count_def next_bucket_def
  find_def lookup_def deref_def erase_def erase_it_def erase_node_def try_shrink_def
  size_table_def empty_table_def

theorem emplace_all_last_value_counterexample:
  "lookup_after example_params [(1, 10), (1, 20 :: nat)] 1
     = Some (Some \<lparr>first = 1, second = Some 10\<rparr>)
   \<and> lookup_after example_params [(1, 10), (1, 20 :: nat)] 1
     \<noteq> Some (Some \<lparr>first = 1, second = Some 20\<rparr>)"
  by (simp add: lookup_after_def eval_defs example_params_def emplace_loop.simps find_loop.simps)

section \<open>Interleaved insertions and erasures\<close>

lemma resize_too_big:
  assumes "max_bucket_count P < new_size"
  shows "resize P t new_size = None"
  using assms by (cases t) (simp_all add: resize_def allocate_nodes_def CHECK_def)

lemma try_grow_Some_grow_ok:
  assumes "wf_table P t" "try_grow P t = Some t'"
  shows "grow_ok P t"
proof (cases t)
  case None
  then show ?thesis
    using assms(2) resize_too_big [of P 8 t] by (cases "8 \<le> max_bucket_count P")
      (auto simp: grow_ok_def try_grow_def)
next
  case (Some inner)
  have inv: "invariant P inner" using assms(1) Some by simp
  note d = invariantD [OF inv]
  note lay = layout_okD [OF d(1)]
  have u5: "u32_mul (used_node_count inner) 5 = used_node_count inner * 5"
    using d(2,6) lay(2) by (intro u32_small) simp
  have m3: "u32_mul (bucket_count_mask inner) 3 = bucket_count_mask inner * 3"
    using lay(2,3) by (intro u32_small) simp
  have sz: "u32_add (u32_mul 2 (bucket_count_mask inner)) 2 = 2 * bucket_count_mask inner + 2"
    using lay(2,3) by (simp add: u32_add_def u32_mul_def)
  show ?thesis
  proof (rule ccontr)
    assume "\<not> grow_ok P t"
    then have g: "used_node_count inner * 5 > bucket_count_mask inner * 3"
      "max_bucket_count P < 2 * bucket_count_mask inner + 2"
      using Some by (auto simp: grow_ok_def)
    have "try_grow P t = None"
      using g(1) resize_too_big [OF g(2), of t] Some by (simp add: try_grow_def u5 m3 sz)
    then show False using assms(2) by simp
  qed
qed

lemma emplace_Some_grow_ok:
  assumes "wf_table P t" "emplace P t key args = Some r"
  shows "grow_ok P t" "key \<noteq> 0"
proof -
  from assms(2) obtain t' where t': "try_grow P t = Some t'"
    by (auto simp: emplace_def split: Option.bind_splits)
  then show "grow_ok P t" using assms(1) by (intro try_grow_Some_grow_ok)
  show "key \<noteq> 0"
    using assms(2) t' by (auto simp: emplace_def CHECK_def is_key_empty_def split: if_splits)
qed

lemma run_ops_keys:
  assumes "wf_table P t" "run_ops P t ops = Some t'"
  shows "wf_table P t' \<and> table_keys t' = keys_after (table_keys t) ops"
  using assms
proof (induction ops arbitrary: t)
  case Nil
  then show ?case by simp
next
  case (Cons op ops)
  show ?case
  proof (cases op)
    case (Insert key args)
    from Cons.prems(2) obtain r where r: "emplace P t key args = Some r"
      by (auto simp: Insert split: Option.bind_splits)
    note g = emplace_Some_grow_ok [OF Cons.prems(1) r]
    obtain t1 it where e: "emplace P t key args = Some (t1, it, key \<notin> table_keys t)"
      "wf_table P t1" "table_keys t1 = insert key (table_keys t)"
      using emplace_table [OF Cons.prems(1) g] by metis
    have "run_ops P t1 ops = Some t'" using Cons.prems(2) e(1) Insert by simp
    then show ?thesis using Cons.IH [OF e(2)] e(3) Insert by simp
  next
    case (Erase key)
    obtain t1 where e: "erase P t key = Some (t1, if key \<in> table_keys t then 1 else 0)"
      "wf_table P t1" "table_keys t1 = table_keys t - {key}"
      using erase_table [OF Cons.prems(1)] by metis
    have "run_ops P t1 ops = Some t'" using Cons.prems(2) e(1) Erase by simp
    then show ?thesis using Cons.IH [OF e(2)] e(3) Erase by simp
  qed
qed

lemma size_table_pos:
  assumes "wf_table P t" "key \<in> table_keys t"
  shows "0 < size_table t"
proof -
  have "table_entries t \<noteq> {#}" using assms(2) by (auto simp: table_keys_image)
  then have "0 < size (table_entries t)" by (simp only: nonempty_has_size)
  then show ?thesis unfolding size_table_entries [OF assms(1)] .
qed

lemma run_ops_total:
  assumes "wf_table P t" "\<forall>op \<in> set ops. is_Insert op \<longrightarrow> op_key op \<noteq> 0"
    "3 \<le> j" "2 ^ j \<le> max_bucket_count P"
    "5 * (size_table t + card (op_key ` set (filter is_Insert ops) - table_keys t))
       \<le> 3 * (2 ^ j - 1)"
  shows "\<exists>t'. run_ops P t ops = Some t'"
  using assms
proof (induction ops arbitrary: t)
  case Nil
  then show ?case by simp
next
  case (Cons op ops)
  let ?K = "op_key ` set (filter is_Insert ops)"
  let ?S = "op_key ` set (filter is_Insert (op # ops)) - table_keys t"
  have fin: "finite ?S" by simp
  show ?case
  proof (cases op)
    case (Insert key args)
    have key: "key \<noteq> 0" using Cons.prems(2) Insert by simp
    have "5 * size_table t \<le> 3 * (2 ^ j - 1)" using Cons.prems(5) by simp
    with Cons.prems(1,3,4) have g: "grow_ok P t" by (rule grow_ok_bound)
    obtain t1 it where e: "emplace P t key args = Some (t1, it, key \<notin> table_keys t)"
      "wf_table P t1" "table_keys t1 = insert key (table_keys t)"
      "size_table t1 = size_table t + (if key \<in> table_keys t then 0 else 1)"
      using emplace_table [OF Cons.prems(1) g key] by metis
    have S1: "?K - table_keys t1 = ?S - {key}" using e(3) Insert by auto
    have cnt: "size_table t1 + card (?K - table_keys t1) \<le> size_table t + card ?S"
    proof (cases "key \<in> table_keys t")
      case True
      have "card (?S - {key}) \<le> card ?S" using fin by (intro card_mono) auto
      then show ?thesis using e(4) True S1 by simp
    next
      case False
      then have "key \<in> ?S" using Insert by simp
      then have "card ?S = Suc (card (?S - {key}))" using fin by (metis card_Suc_Diff1)
      then show ?thesis using e(4) False S1 by simp
    qed
    have "\<exists>t'. run_ops P t1 ops = Some t'"
    proof (rule Cons.IH [OF e(2)])
      show "\<forall>op \<in> set ops. is_Insert op \<longrightarrow> op_key op \<noteq> 0" using Cons.prems(2) by simp
      show "3 \<le> j" by (rule Cons.prems(3))
      show "2 ^ j \<le> max_bucket_count P" by (rule Cons.prems(4))
      show "5 * (size_table t1 + card (?K - table_keys t1)) \<le> 3 * (2 ^ j - 1)"
        using mult_le_mono2 [OF cnt] Cons.prems(5) by (rule le_trans)
    qed
    then show ?thesis using e(1) Insert by simp
  next
    case (Erase key)
    obtain t1 where e: "erase P t key = Some (t1, if key \<in> table_keys t then 1 else 0)"
      "wf_table P t1" "table_keys t1 = table_keys t - {key}"
      "size_table t1 = size_table t - (if key \<in> table_keys t then 1 else 0)"
      using erase_table [OF Cons.prems(1)] by metis
    have S: "?S = ?K - table_keys t" using Erase by simp
    have cnt: "size_table t1 + card (?K - table_keys t1) \<le> size_table t + card ?S"
    proof (cases "key \<in> table_keys t")
      case True
      have "?K - table_keys t1 \<subseteq> insert key ?S" using e(3) S by auto
      then have "card (?K - table_keys t1) \<le> card (insert key ?S)"
        using fin by (intro card_mono) auto
      also have "\<dots> \<le> Suc (card ?S)" using fin by (simp add: card_insert_if)
      finally have "card (?K - table_keys t1) \<le> Suc (card ?S)" .
      moreover have "0 < size_table t" using Cons.prems(1) True by (rule size_table_pos)
      ultimately show ?thesis using e(4) True by simp
    next
      case False
      then have "table_keys t1 = table_keys t" using e(3) by simp
      then show ?thesis using e(4) False S by simp
    qed
    have "\<exists>t'. run_ops P t1 ops = Some t'"
    proof (rule Cons.IH [OF e(2)])
      show "\<forall>op \<in> set ops. is_Insert op \<longrightarrow> op_key op \<noteq> 0" using Cons.prems(2) by simp
      show "3 \<le> j" by (rule Cons.prems(3))
      show "2 ^ j \<le> max_bucket_count P" by (rule Cons.prems(4))
      show "5 * (size_table t1 + card (?K - table_keys t1)) \<le> 3 * (2 ^ j - 1)"
        using mult_le_mono2 [OF cnt] Cons.prems(5) by (rule le_trans)
    qed
    then show ?thesis using e(1) Erase by simp
  qed
qed

lemma keys_after_char:
  "k \<in> keys_after S ops \<longleftrightarrow>
     (case List.find (\<lambda>op. op_key op = k) (rev ops) of
        None \<Rightarrow> k \<in> S
      | Some op \<Rightarrow> is_Insert op)"
proof (induction ops arbitrary: S)
  case Nil
  then show ?case by simp
next
  case (Cons op ops)
  have fa: "List.find Q (xs @ [x]) = (case List.find Q xs of None \<Rightarrow> (if Q x then Some x else None) | Some y \<Rightarrow> Some y)"
    for Q and xs :: "('a, 'b) operation list" and x
    by (induction xs) simp_all
  show ?case
  proof (cases op)
    case (Insert key args)
    then show ?thesis using Cons.IH [of "insert key S"]
      by (auto simp: fa split: option.splits)
  next
    case (Erase key)
    then show ?thesis using Cons.IH [of "S - {key}"]
      by (auto simp: fa split: option.splits)
  qed
qed

lemma keys_after_empty: "k \<in> keys_after {} ops \<longleftrightarrow> last_op_is_insert ops k"
  by (simp add: keys_after_char last_op_is_insert_def split: option.splits)

lemma lookup_iff_key:
  assumes "wf_table P t"
  shows "\<exists>r. lookup P t k = Some r \<and> (r \<noteq> None \<longleftrightarrow> k \<in> table_keys t)"
proof (cases "k \<in> table_keys t")
  case True
  then obtain x where x: "x \<in># table_entries t" "first x = k"
    unfolding table_keys_image by blast
  have "lookup P t k = Some (Some x)" using lookup_present [OF assms x(1)] x(2) by simp
  then show ?thesis using True by simp
next
  case False
  then show ?thesis using lookup_absent [OF assms False] by simp
qed

lemma inserted_keys_take:
  "card (op_key ` set (filter is_Insert (take n ops)))
     \<le> card (op_key ` set (filter is_Insert ops))"
proof (rule card_mono)
  show "finite (op_key ` set (filter is_Insert ops))" by simp
  show "op_key ` set (filter is_Insert (take n ops)) \<subseteq> op_key ` set (filter is_Insert ops)"
    by (auto dest: in_set_takeD)
qed

text \<open>
  C5. For every sequence of \<open>emplace\<close> and \<open>erase\<close> operations that starts from an empty
  table, at every intermediate point (after the first \<open>n\<close> operations) \<open>find k\<close> returns an
  entry if and only if the most recent operation on \<open>k\<close> so far was an insertion. The
  operations all return when the inserted keys are not the sentinel and their number \<open>N\<close>
  (of distinct keys) satisfies \<open>5 * N \<le> 3 * (2 ^ j - 1)\<close> for a bucket count \<open>2 ^ j\<close> with
  \<open>3 \<le> j\<close> that \<^verbatim>\<open>allocate_nodes\<close> accepts.
\<close>

theorem find_iff_last_op_is_insert:
  "(\<forall>t. run_ops P None (take n ops) = Some t \<longrightarrow>
      (\<exists>r. lookup P t k = Some r \<and> (r \<noteq> None \<longleftrightarrow> last_op_is_insert (take n ops) k)))
   \<and> ((\<forall>op \<in> set ops. is_Insert op \<longrightarrow> op_key op \<noteq> 0)
        \<and> 3 \<le> j \<and> 2 ^ j \<le> max_bucket_count P
        \<and> 5 * card (op_key ` set (filter is_Insert ops)) \<le> 3 * (2 ^ j - 1)
      \<longrightarrow> (\<exists>t. run_ops P None (take n ops) = Some t))"
proof (intro conjI allI impI)
  fix t :: "('a, 'b) FlatHashTable"
  assume r: "run_ops P None (take n ops) = Some t"
  have wfN: "wf_table P (None :: ('a, 'b) FlatHashTable)" by simp
  from run_ops_keys [OF wfN r] have t: "wf_table P t"
    "table_keys t = keys_after {} (take n ops)" by (simp_all add: table_keys_image)
  have "k \<in> table_keys t \<longleftrightarrow> last_op_is_insert (take n ops) k"
    unfolding t(2) by (rule keys_after_empty)
  then show "\<exists>r. lookup P t k = Some r \<and> (r \<noteq> None \<longleftrightarrow> last_op_is_insert (take n ops) k)"
    using lookup_iff_key [OF t(1), of k] by simp
next
  assume a: "(\<forall>op \<in> set ops. is_Insert op \<longrightarrow> op_key op \<noteq> 0)
        \<and> 3 \<le> j \<and> 2 ^ j \<le> max_bucket_count P
        \<and> 5 * card (op_key ` set (filter is_Insert ops)) \<le> 3 * (2 ^ j - 1)"
  have wfN: "wf_table P (None :: ('a, 'b) FlatHashTable)" by simp
  show "\<exists>t. run_ops P None (take n ops) = Some t"
  proof (rule run_ops_total [OF wfN])
    show "\<forall>op \<in> set (take n ops). is_Insert op \<longrightarrow> op_key op \<noteq> 0"
      using a by (meson in_set_takeD)
    show "3 \<le> j" using a by simp
    show "2 ^ j \<le> max_bucket_count P" using a by simp
    show "5 * (size_table (None :: ('a, 'b) FlatHashTable)
             + card (op_key ` set (filter is_Insert (take n ops))
                     - table_keys (None :: ('a, 'b) FlatHashTable)))
        \<le> 3 * (2 ^ j - 1)"
      using a inserted_keys_take [of n ops] by (simp add: size_table_def table_keys_image)
  qed
qed

theorem find_iff_last_op_is_insert_witness:
  "\<exists>t. run_ops example_params None [Insert 1 10, Insert 2 (20 :: nat), Erase 1] = Some t
       \<and> lookup example_params t 1 = Some None
       \<and> lookup example_params t 2 \<noteq> Some None
       \<and> lookup example_params t 2 \<noteq> None"
proof -
  let ?ops = "[Insert 1 10, Insert 2 20, Erase 1] :: (nat, nat) operation list"
  note th = find_iff_last_op_is_insert [of example_params 3 ?ops _ 3]
  have "\<exists>t. run_ops example_params None (take 3 ?ops) = Some t"
    using th [of 1, THEN conjunct2] by (simp add: max_bucket_count_example card_insert_if)
  then obtain t where t: "run_ops example_params None ?ops = Some t" by auto
  have 1: "lookup example_params t 1 = Some None"
    using th [of 1, THEN conjunct1, rule_format, of t] t
    by (auto simp: last_op_is_insert_def)
  have 2: "lookup example_params t 2 \<noteq> Some None \<and> lookup example_params t 2 \<noteq> None"
    using th [of 2, THEN conjunct1, rule_format, of t] t
    by (auto simp: last_op_is_insert_def)
  show ?thesis using t 1 2 by blast
qed

section \<open>Lemmas for concrete tables\<close>

lemma invariant_fresh_pow:
  assumes "3 \<le> j" "2 ^ j \<le> max_bucket_count P"
  shows "invariant P \<lparr>used_node_count = 0, bucket_count_mask = 2 ^ j - 1,
                        nodes = replicate (2 ^ j) MapNode_default\<rparr>"
proof -
  have "layout_ok P \<lparr>used_node_count = 0, bucket_count_mask = 2 ^ j - 1,
                       nodes = replicate (2 ^ j) MapNode_default\<rparr>"
    using assms by (rule layout_ok_fresh)
  then show ?thesis
    by (intro invariantI) (simp_all add: contiguous_from_all_empty keys_distinct_count)
qed

lemma replicate_8: "replicate 8 x = [x, x, x, x, x, x, x, x]"
  by (simp add: numeral_eq_Suc)

lemma replicate_numeral: "replicate (numeral k) x = x # replicate (pred_numeral k) x"
  by (simp add: numeral_eq_Suc)

lemma emplace_all_wf:
  assumes "emplace_all P t kvs = Some t'" "wf_table P t"
  shows "wf_table P t'"
  using assms
proof (induction kvs arbitrary: t)
  case Nil
  then show ?case by simp
next
  case (Cons kv kvs)
  obtain key args where kv: "kv = (key, args)" by (cases kv)
  from Cons.prems(1) obtain r where r: "emplace P t key args = Some r"
    by (auto simp: kv split: Option.bind_splits)
  note g = emplace_Some_grow_ok [OF Cons.prems(2) r]
  obtain t1 it where e: "emplace P t key args = Some (t1, it, key \<notin> table_keys t)"
    "wf_table P t1"
    using emplace_table [OF Cons.prems(2) g] by metis
  have "emplace_all P t1 kvs = Some t'" using Cons.prems(1) e(1) kv by simp
  then show ?case using e(2) by (rule Cons.IH)
qed

section \<open>Erasing an absent key\<close>

text \<open>
  C9. For every table \<open>t\<close> and every key \<open>k\<close> that is not present in \<open>t\<close>, \<open>erase k\<close>
  returns 0 and the table is the one it was: the same header and the same bucket array,
  hence the same \<open>size()\<close>, the same \<open>bucket_count()\<close> and the same result of \<open>find\<close> on
  every key, and no shrink has taken place. This covers the sentinel key, which is never
  present, and the null table.
\<close>

theorem erase_absent_unchanged:
  assumes "wf_table P t"
  shows "(key \<notin> table_keys t \<longrightarrow> erase P t key = Some (t, 0))
       \<and> erase P t 0 = Some (t, 0)
       \<and> erase P None key = Some (None, 0)"
proof (intro conjI impI)
  show "erase P t key = Some (t, 0)" if "key \<notin> table_keys t"
    using assms that by (rule erase_absent)
  have "0 \<notin> table_keys t" by simp
  with assms show "erase P t 0 = Some (t, 0)" by (rule erase_absent)
  show "erase P None key = Some (None, 0)" by (rule erase_absent) simp_all
qed

text \<open>
  An instance: \<open>reserve 20\<close> on the null table allocates 64 buckets. Erasing the absent key
  5 leaves these 64 buckets, although \<open>try_shrink\<close> on this table would go down to 8.
\<close>

theorem erase_absent_unchanged_witness:
  "\<exists>t :: (nat, nat) FlatHashTable.
     reserve example_params None 20 = Some t \<and> bucket_count t = 64
     \<and> erase example_params t 5 = Some (t, 0)
     \<and> erase example_params t 0 = Some (t, 0)
     \<and> try_shrink example_params t \<noteq> Some t"
proof -
  let ?i = "\<lparr>used_node_count = 0, bucket_count_mask = 2 ^ 6 - 1,
             nodes = replicate (2 ^ 6) MapNode_default\<rparr> :: (nat, nat) FlatHashTableInner"
  have r: "reserve example_params None 20 = Some (Some ?i)"
    by (simp add: reserve_def eval_defs example_params_def normalize_def
        count_leading_zeroes32_def bit_width.simps)
  have inv: "invariant example_params ?i"
    by (rule invariant_fresh_pow) (simp_all add: max_bucket_count_example)
  then have wf: "wf_table example_params (Some ?i)" by simp
  have k: "5 \<notin> table_keys (Some ?i)" by (simp add: table_keys_image)
  note th = erase_absent_unchanged [OF wf, of 5]
  have e5: "erase example_params (Some ?i) 5 = Some (Some ?i, 0)" using th k by blast
  have e0: "erase example_params (Some ?i) 0 = Some (Some ?i, 0)" using th by blast
  have b: "bucket_count (Some ?i) = 64" by (simp add: bucket_count_def u32_add_def)
  obtain inner' where i': "try_shrink example_params (Some ?i) = Some (Some inner')"
    "used_node_count ?i * 10 < bucket_count_mask ?i \<and> bucket_count_mask ?i > 7
       \<Longrightarrow> least_pow2_above ((used_node_count ?i + 1) * 5 div 3 + 1)
             (bucket_count_mask inner' + 1)
           \<and> bucket_count_mask inner' < bucket_count_mask ?i"
    using try_shrink_correct [OF inv] by blast
  have "bucket_count_mask inner' < bucket_count_mask ?i" using i'(2) by simp
  then have s: "try_shrink example_params (Some ?i) \<noteq> Some (Some ?i)"
    unfolding i'(1) by auto
  show ?thesis using r b e5 e0 s by blast
qed

section \<open>Inserting a key that is present\<close>



section \<open>Probe contiguity\<close>

lemma wf_table_probe_contiguous:
  assumes "wf_table P t"
  shows "table_probe_contiguous P t"
  using assms by (cases t) (simp_all add: table_probe_contiguous_def invariant_def)



section \<open>Shrinking\<close>

lemma bucket_count_mask:
  assumes "invariant P inner"
  shows "bucket_count (Some inner) = bucket_count_mask inner + 1"
proof -
  note lay = layout_okD [OF invariantD(1) [OF assms]]
  show ?thesis using bucket_count_eq [OF invariantD(1) [OF assms]] lay(1,3) by simp
qed

text \<open>
  C6. A table shrinks only in \<^verbatim>\<open>try_shrink\<close>, and only when
  \<open>used_count * 10 < bucket_mask\<close> and \<open>bucket_mask > 7\<close>. An \<open>erase\<close> that removes an entry
  shrinks the table exactly when this holds for the count after the removal; the new bucket
  count is then the smallest power of two that is strictly greater than
  \<open>(used_count + 1) * 5 div 3 + 1\<close>, and at least 8, and it is less than the old one. After an
  \<open>erase\<close> that removed an entry and did not shrink, \<open>used_count * 10 \<ge> bucket_mask\<close> or
  \<open>bucket_mask \<le> 7\<close>.
\<close>

theorem shrink_on_erase:
  assumes "invariant P inner"
  shows
    "(\<exists>inner'. try_shrink P (Some inner) = Some (Some inner')
        \<and> (bucket_count (Some inner') \<noteq> bucket_count (Some inner) \<longrightarrow>
             used_node_count inner * 10 < bucket_count_mask inner \<and> bucket_count_mask inner > 7))
     \<and> (key \<in> table_keys (Some inner) \<longrightarrow>
          (\<exists>inner'. erase P (Some inner) key = Some (Some inner', 1)
             \<and> used_node_count inner' = used_node_count inner - 1
             \<and> (used_node_count inner' * 10 < bucket_count_mask inner \<and> bucket_count_mask inner > 7
                  \<longrightarrow> least_pow2_above ((used_node_count inner' + 1) * 5 div 3 + 1)
                        (bucket_count (Some inner'))
                      \<and> bucket_count (Some inner') < bucket_count (Some inner))
             \<and> (\<not> (used_node_count inner' * 10 < bucket_count_mask inner \<and> bucket_count_mask inner > 7)
                  \<longrightarrow> bucket_count (Some inner') = bucket_count (Some inner))
             \<and> (bucket_count (Some inner') = bucket_count (Some inner)
                  \<longrightarrow> used_node_count inner' * 10 \<ge> bucket_count_mask inner'
                      \<or> bucket_count_mask inner' \<le> 7)))"
proof (intro conjI impI)
  obtain inner' where s: "try_shrink P (Some inner) = Some (Some inner')"
    "\<not> (used_node_count inner * 10 < bucket_count_mask inner \<and> bucket_count_mask inner > 7)
       \<Longrightarrow> inner' = inner"
    using try_shrink_correct [OF assms] by blast
  have "used_node_count inner * 10 < bucket_count_mask inner \<and> bucket_count_mask inner > 7"
    if "bucket_count (Some inner') \<noteq> bucket_count (Some inner)"
    using s(2) that by blast
  then show "\<exists>inner'. try_shrink P (Some inner) = Some (Some inner')
        \<and> (bucket_count (Some inner') \<noteq> bucket_count (Some inner) \<longrightarrow>
             used_node_count inner * 10 < bucket_count_mask inner \<and> bucket_count_mask inner > 7)"
    using s(1) by blast
next
  assume k: "key \<in> table_keys (Some inner)"
  let ?m = "bucket_count_mask inner"
  obtain inner' where e:
    "erase P (Some inner) key = Some (Some inner', 1)" "invariant P inner'"
    "used_node_count inner' = used_node_count inner - 1"
    "\<not> (used_node_count inner' * 10 < ?m \<and> ?m > 7) \<Longrightarrow> bucket_count_mask inner' = ?m"
    "used_node_count inner' * 10 < ?m \<and> ?m > 7
       \<Longrightarrow> least_pow2_above ((used_node_count inner' + 1) * 5 div 3 + 1)
             (bucket_count_mask inner' + 1)
           \<and> bucket_count_mask inner' < ?m"
    using erase_present [OF assms k] by blast
  note b = bucket_count_mask [OF assms] and b' = bucket_count_mask [OF e(2)]
  have 1: "least_pow2_above ((used_node_count inner' + 1) * 5 div 3 + 1)
             (bucket_count (Some inner'))
           \<and> bucket_count (Some inner') < bucket_count (Some inner)"
    if "used_node_count inner' * 10 < ?m \<and> ?m > 7"
    using e(5) [OF that] unfolding b b' by simp
  have 2: "bucket_count (Some inner') = bucket_count (Some inner)"
    if "\<not> (used_node_count inner' * 10 < ?m \<and> ?m > 7)"
    using e(4) [OF that] unfolding b b' by simp
  have 3: "used_node_count inner' * 10 \<ge> bucket_count_mask inner'
         \<or> bucket_count_mask inner' \<le> 7"
    if eq: "bucket_count (Some inner') = bucket_count (Some inner)"
  proof (cases "used_node_count inner' * 10 < ?m \<and> ?m > 7")
    case True
    then show ?thesis using 1 eq by simp
  next
    case False
    then have "bucket_count_mask inner' = ?m" by (rule e(4))
    then show ?thesis using False by auto
  qed
  show "\<exists>inner'. erase P (Some inner) key = Some (Some inner', 1)
             \<and> used_node_count inner' = used_node_count inner - 1
             \<and> (used_node_count inner' * 10 < bucket_count_mask inner \<and> bucket_count_mask inner > 7
                  \<longrightarrow> least_pow2_above ((used_node_count inner' + 1) * 5 div 3 + 1)
                        (bucket_count (Some inner'))
                      \<and> bucket_count (Some inner') < bucket_count (Some inner))
             \<and> (\<not> (used_node_count inner' * 10 < bucket_count_mask inner \<and> bucket_count_mask inner > 7)
                  \<longrightarrow> bucket_count (Some inner') = bucket_count (Some inner))
             \<and> (bucket_count (Some inner') = bucket_count (Some inner)
                  \<longrightarrow> used_node_count inner' * 10 \<ge> bucket_count_mask inner'
                      \<or> bucket_count_mask inner' \<le> 7)"
  proof (intro exI [of _ inner'] conjI impI)
    show "erase P (Some inner) key = Some (Some inner', 1)" by (rule e(1))
    show "used_node_count inner' = used_node_count inner - 1" by (rule e(3))
    show "least_pow2_above ((used_node_count inner' + 1) * 5 div 3 + 1)
            (bucket_count (Some inner'))"
      if "used_node_count inner' * 10 < ?m \<and> ?m > 7" using 1 [OF that] ..
    show "bucket_count (Some inner') < bucket_count (Some inner)"
      if "used_node_count inner' * 10 < ?m \<and> ?m > 7" using 1 [OF that] ..
    show "bucket_count (Some inner') = bucket_count (Some inner)"
      if "\<not> (used_node_count inner' * 10 < ?m \<and> ?m > 7)" using that by (rule 2)
    show "used_node_count inner' * 10 \<ge> bucket_count_mask inner'
         \<or> bucket_count_mask inner' \<le> 7"
      if "bucket_count (Some inner') = bucket_count (Some inner)" using that by (rule 3)
  qed
qed

text \<open>
  An instance: \<open>reserve 20\<close> on the null table allocates 64 buckets; after the insertion
  of the key 1, erasing it leaves no entry, and the table shrinks to the minimum of 8
  buckets (\<open>(0 + 1) * 5 div 3 + 1 = 2\<close>).
\<close>

theorem shrink_on_erase_witness:
  "\<exists>t0 t it t'.
     reserve example_params None 20 = Some t0
     \<and> emplace example_params t0 1 (10 :: nat) = Some (t, it, True)
     \<and> bucket_count t = 64 \<and> size_table t = 1
     \<and> erase example_params t 1 = Some (t', 1)
     \<and> bucket_count t' = 8 \<and> size_table t' = 0"
proof -
  let ?i = "\<lparr>used_node_count = 0, bucket_count_mask = 2 ^ 6 - 1,
             nodes = replicate (2 ^ 6) MapNode_default\<rparr> :: (nat, nat) FlatHashTableInner"
  have r: "reserve example_params None 20 = Some (Some ?i)"
    by (simp add: reserve_def eval_defs example_params_def normalize_def
        count_leading_zeroes32_def bit_width.simps)
  have inv: "invariant example_params ?i"
    by (rule invariant_fresh_pow) (simp_all add: max_bucket_count_example)
  then have wf: "wf_table example_params (Some ?i)" by simp
  have g: "grow_ok example_params (Some ?i)" by (simp add: grow_ok_def)
  have nk: "1 \<notin> table_keys (Some ?i)" by (simp add: table_keys_image)
  have key1: "(1::nat) \<noteq> 0" by simp
  obtain inner1 p where e:
    "emplace example_params (Some ?i) 1 10
       = Some (Some inner1, Iterator_new (Some p) (Some inner1), 1 \<notin> table_keys (Some ?i))"
    "invariant example_params inner1"
    "entries (nodes inner1)
       = (if 1 \<in> table_keys (Some ?i) then table_entries (Some ?i)
          else add_mset \<lparr>first = 1, second = Some 10\<rparr> (table_entries (Some ?i)))"
    "bucket_count_mask inner1
       = (case Some ?i of None \<Rightarrow> 7
          | Some inner \<Rightarrow>
              if used_node_count inner * 5 > bucket_count_mask inner * 3
              then 2 * bucket_count_mask inner + 1 else bucket_count_mask inner)"
    using emplace_correct [OF wf g key1, of 10] by blast
  have m1: "bucket_count_mask inner1 = 63" using e(4) by simp
  have en: "entries (nodes inner1) = {#\<lparr>first = 1, second = Some 10\<rparr>#}"
    using e(3) nk by simp
  have u1: "used_node_count inner1 = 1" using invariantD(2) [OF e(2)] en by simp
  have b1: "bucket_count (Some inner1) = 64" using bucket_count_mask [OF e(2)] m1 by simp
  have k1: "1 \<in> table_keys (Some inner1)" using en by (simp add: table_keys_image)
  note th = shrink_on_erase [OF e(2), of 1, THEN conjunct2, THEN mp, OF k1]
  from th obtain inner' where c:
    "erase example_params (Some inner1) 1 = Some (Some inner', 1)
     \<and> used_node_count inner' = used_node_count inner1 - 1
     \<and> (used_node_count inner' * 10 < bucket_count_mask inner1 \<and> bucket_count_mask inner1 > 7
          \<longrightarrow> least_pow2_above ((used_node_count inner' + 1) * 5 div 3 + 1)
                (bucket_count (Some inner'))
              \<and> bucket_count (Some inner') < bucket_count (Some inner1))
     \<and> (\<not> (used_node_count inner' * 10 < bucket_count_mask inner1 \<and> bucket_count_mask inner1 > 7)
          \<longrightarrow> bucket_count (Some inner') = bucket_count (Some inner1))
     \<and> (bucket_count (Some inner') = bucket_count (Some inner1)
          \<longrightarrow> used_node_count inner' * 10 \<ge> bucket_count_mask inner'
              \<or> bucket_count_mask inner' \<le> 7)" ..
  note c1 = c [THEN conjunct1] and c2 = c [THEN conjunct2, THEN conjunct1]
    and c3 = c [THEN conjunct2, THEN conjunct2, THEN conjunct1]
  have u': "used_node_count inner' = 0" using c2 u1 by simp
  have "least_pow2_above (Suc (Suc 0)) (bucket_count (Some inner'))" using c3 u' m1 by simp
  then have "8 \<le> bucket_count (Some inner')"
    "Suc (Suc 0) < 2 ^ 3 \<and> (8::nat) \<le> 2 ^ 3 \<longrightarrow> bucket_count (Some inner') \<le> 2 ^ 3"
    unfolding least_pow2_above_def by blast+
  then have b': "bucket_count (Some inner') = 8" by simp
  show ?thesis
  proof (rule exI [of _ "Some ?i"], rule exI [of _ "Some inner1"],
      rule exI [of _ "Iterator_new (Some p) (Some inner1)"], rule exI [of _ "Some inner'"],
      intro conjI)
    show "reserve example_params None 20 = Some (Some ?i)" by (rule r)
    show "emplace example_params (Some ?i) 1 10
        = Some (Some inner1, Iterator_new (Some p) (Some inner1), True)"
      using e(1) nk by simp
    show "bucket_count (Some inner1) = 64" by (rule b1)
    show "size_table (Some inner1) = 1" using u1 by (simp add: size_table_def)
    show "erase example_params (Some inner1) 1 = Some (Some inner', 1)" by (rule c1)
    show "bucket_count (Some inner') = 8" by (rule b')
    show "size_table (Some inner') = 0" using u' by (simp add: size_table_def)
  qed
qed

text \<open>
  The claim as stated fails in two ways. With 128 buckets (after \<open>reserve 40\<close>) and the
  keys 1 to 9, erasing the key 1 leaves 8 entries: \<open>(8 + 1) * 5 div 3 + 1 = 16\<close> is itself a
  power of two, and the new bucket count is 32. And erasing the absent key 5 from the empty
  table of 64 buckets (after \<open>reserve 20\<close>) returns 0 without a shrink, although
  \<open>0 * 10 < 63\<close> and \<open>63 > 7\<close>.
\<close>

theorem shrink_on_erase_counterexample:
  "(do { t \<leftarrow> reserve example_params None 40;
         t \<leftarrow> emplace_all example_params t
               [(1, 1), (2, 2), (3, 3), (4, 4), (5, 5), (6, 6), (7, 7), (8, 8), (9, 9 :: nat)];
         (t', n) \<leftarrow> erase example_params t 1;
         Some (bucket_count t, size_table t', n, bucket_count t') })
     = Some (128, 8, 1, 32)
   \<and> (8 + 1) * 5 div 3 + 1 = (16 :: nat)
   \<and> (do { t \<leftarrow> reserve example_params (None :: (nat, nat) FlatHashTable) 20;
           (t', n) \<leftarrow> erase example_params t 5;
           Some (bucket_count t, size_table t', n, bucket_count t') })
     = Some (64, 0, 0, 64)"
  by (simp add: reserve_def eval_defs example_params_def emplace_loop.simps find_loop.simps
        erase_node_loop.simps probe_empty.simps replicate_numeral normalize_def
        count_leading_zeroes32_def bit_width.simps)

end
